theory Spec2Isabelle
  imports Main "HOL-Library.Char_ord" "HOL-Library.List_Lexorder" "HOL-Library.Product_Lexorder"
begin

section \<open>Python values used by clean.py and get\_file.py\<close>

text \<open>
  The exceptions the two scripts can raise on the paths modelled here. A raise that no
  handler catches ends the run; in the model it is the \<open>Inl\<close> branch of a sum.
\<close>

datatype py_error =
  RuntimeError | AttributeError | ValueError | IndexError | NameError | FileNotFoundError
  | FileExistsError | NotADirectoryError | IsADirectoryError | OSError | RequestException

text \<open>
  A \<open>string\<close> is the list of the characters of a Python \<open>str\<close>, a \<open>char\<close> being a code
  point below 256; text with other code points is outside the model. \<open>str.isspace\<close> holds
  of these code points: tab, line feed, vertical tab, form feed, carriage return, the four
  separators 0x1C..0x1F, the space, the next-line control 0x85 and the no-break space 0xA0.
  \<open>str.strip\<close>, \<open>str.split\<close> and the class \<open>\s\<close> of a regular expression on text all
  use this set.
\<close>

definition is_space :: "char \<Rightarrow> bool" where
  "is_space c =
     (let n = of_char c :: nat
      in (9 \<le> n \<and> n \<le> 13) \<or> (28 \<le> n \<and> n \<le> 32) \<or> n = 133 \<or> n = 160)"

text \<open>\<open>s.strip()\<close>: leading and trailing whitespace removed.\<close>

definition strip :: "string \<Rightarrow> string" where
  "strip s = rev (dropWhile is_space (rev (dropWhile is_space s)))"

text \<open>
  Indexing a list, \<open>xs[i]\<close>: an index from \<open>0\<close> reads from the front, a negative one
  from the back, and anything else raises \<open>IndexError\<close>.
\<close>

definition py_get :: "'a list \<Rightarrow> int \<Rightarrow> py_error + 'a" where
  "py_get xs i =
     (if 0 \<le> i \<and> i < int (length xs) then Inr (xs ! nat i)
      else if i < 0 \<and> - int (length xs) \<le> i then Inr (xs ! nat (int (length xs) + i))
      else Inl IndexError)"

section \<open>Standings parser (clean.py, lines 183--206)\<close>

text \<open>
  One \<open>tr\<close> of the standings table as the loop reads it: the text of its first link, and
  for every \<open>td\<close> that follows the score cell the value of \<open>get("class")\<close>, which is
  \<open>None\<close> when the cell has no class attribute and the list of its classes otherwise.
\<close>

record standings_row =
  link_text :: string
  cell_classes :: "string list option list"

record standings =
  accepted :: "string set"
  attempted :: "string set"
  no_submission :: "string set"

text \<open>
  The column read is \<open>question = ord(args.q.upper()[0]) - ord("A")\<close>, an integer that the
  loop only uses as an index into the cells of a row; the loop is modelled for any integer.
\<close>

definition username_of :: "standings_row \<Rightarrow> string" where
  "username_of r = strip (link_text r)"

text \<open>The body of the loop over the student rows (lines 191--203).\<close>

definition classify_row :: "int \<Rightarrow> standings \<Rightarrow> standings_row \<Rightarrow> py_error + standings" where
  "classify_row question S student =
     (let username = username_of student in
      case py_get (cell_classes student) question of
        Inl e \<Rightarrow> Inl e
      | Inr solve \<Rightarrow>
          (case solve of
             None \<Rightarrow> Inr (S\<lparr>no_submission := insert username (no_submission S)\<rparr>)
           | Some cls \<Rightarrow>
               if ''attempted'' \<in> set cls then Inr (S\<lparr>attempted := insert username (attempted S)\<rparr>)
               else if ''solved'' \<in> set cls then Inr (S\<lparr>accepted := insert username (accepted S)\<rparr>)
               else if ''first'' \<in> set cls then Inr (S\<lparr>accepted := insert username (accepted S)\<rparr>)
               else Inl RuntimeError))"

fun classify_rows :: "int \<Rightarrow> standings \<Rightarrow> standings_row list \<Rightarrow> py_error + standings" where
  "classify_rows question S [] = Inr S"
| "classify_rows question S (student # rest) =
     (case classify_row question S student of
        Inl e \<Rightarrow> Inl e
      | Inr S' \<Rightarrow> classify_rows question S' rest)"

definition empty_standings :: standings where
  "empty_standings = \<lparr>accepted = {}, attempted = {}, no_submission = {}\<rparr>"

definition classify_standings :: "int \<Rightarrow> standings_row list \<Rightarrow> py_error + standings" where
  "classify_standings question student_list = classify_rows question empty_standings student_list"

text \<open>
  \<open>student_list = accepted.union(attempted).union(no_submission)\<close> (line 206).
\<close>

definition roster :: "standings \<Rightarrow> string set" where
  "roster S = accepted S \<union> attempted S \<union> no_submission S"

definition pairwise_disjoint :: "standings \<Rightarrow> bool" where
  "pairwise_disjoint S =
     (accepted S \<inter> attempted S = {} \<and> accepted S \<inter> no_submission S = {}
      \<and> attempted S \<inter> no_submission S = {})"

section \<open>Dates and \<open>datetime.strptime\<close>\<close>

text \<open>
  A naive \<open>datetime\<close>. Python compares two of them field by field, from the year down to
  the second.
\<close>

record datetime =
  year :: nat
  month :: nat
  day :: nat
  hour :: nat
  minute :: nat
  second :: nat

definition dt_key :: "datetime \<Rightarrow> nat \<times> nat \<times> nat \<times> nat \<times> nat \<times> nat" where
  "dt_key t = (year t, month t, day t, hour t, minute t, second t)"

definition dt_less :: "datetime \<Rightarrow> datetime \<Rightarrow> bool" where
  "dt_less a b = (dt_key a < dt_key b)"

text \<open>
  \<open>datetime.strptime\<close> is the standard library's, not this repository's. It is modelled for
  the directives the script uses, after CPython's \<open>Lib/_strptime.py\<close>: the format becomes a
  regular expression in which a directive is a group of alternatives, a run of whitespace is
  \<open>\s+\<close> and any other character stands for itself; the text must match from its start, the
  match must end at the end of the text, and the fields must make a valid date and time. Any
  failure raises \<open>ValueError\<close>.

  A format is written here as the list of its items: \<open>%Y-%m-%d %H:%M\<close> is
  \<open>[Dir Y, Lit -, Dir m, Lit -, Dir d, Spaces, Dir H, Lit :, Dir M]\<close>.
\<close>

datatype fmt_item = Dir char | Lit char | Spaces

text \<open>
  The digits from \<open>lo\<close> to \<open>hi\<close>. Among the code points below 256 the class \<open>\d\<close> holds
  of the ten digits \<open>0\<close> to \<open>9\<close> only.
\<close>

definition digit :: "nat \<Rightarrow> nat \<Rightarrow> char \<Rightarrow> bool" where
  "digit lo hi c = (let n = of_char c :: nat in 48 + lo \<le> n \<and> n \<le> 48 + hi)"

definition blank :: "char \<Rightarrow> bool" where
  "blank c = (c = CHR '' '')"

text \<open>
  The alternatives of each directive, in the order the regular expression tries them:
  \<open>%Y\<close> is \<open>\d\d\d\d\<close>, \<open>%m\<close> is \<open>1[0-2]|0[1-9]|[1-9]\<close>,
  \<open>%d\<close> is \<open>3[0-1]|[1-2]\d|0[1-9]|[1-9]| [1-9]\<close>, \<open>%H\<close> is \<open>2[0-3]|[0-1]\d|\d\<close>,
  \<open>%M\<close> is \<open>[0-5]\d|\d\<close> and \<open>%S\<close> is \<open>6[0-1]|[0-5]\d|\d\<close>.
\<close>

definition directive_alts :: "char \<Rightarrow> (char \<Rightarrow> bool) list list" where
  "directive_alts d =
     (if d = CHR ''Y'' then [[digit 0 9, digit 0 9, digit 0 9, digit 0 9]]
      else if d = CHR ''m'' then [[digit 1 1, digit 0 2], [digit 0 0, digit 1 9], [digit 1 9]]
      else if d = CHR ''d'' then
        [[digit 3 3, digit 0 1], [digit 1 2, digit 0 9], [digit 0 0, digit 1 9], [digit 1 9],
         [blank, digit 1 9]]
      else if d = CHR ''H'' then [[digit 2 2, digit 0 3], [digit 0 1, digit 0 9], [digit 0 9]]
      else if d = CHR ''M'' then [[digit 0 5, digit 0 9], [digit 0 9]]
      else if d = CHR ''S'' then [[digit 6 6, digit 0 1], [digit 0 5, digit 0 9], [digit 0 9]]
      else [])"

fun match_classes :: "(char \<Rightarrow> bool) list \<Rightarrow> string \<Rightarrow> (string \<times> string) option" where
  "match_classes [] s = Some ([], s)"
| "match_classes (p # ps) [] = None"
| "match_classes (p # ps) (c # s) =
     (if p c then (case match_classes ps s of None \<Rightarrow> None | Some (m, rest) \<Rightarrow> Some (c # m, rest))
      else None)"

text \<open>
  \<open>int(text)\<close> on the text of a group: decimal digits, a leading blank ignored.
\<close>

definition int_of_text :: "string \<Rightarrow> nat" where
  "int_of_text s =
     foldl (\<lambda>n c. if digit 0 9 c then 10 * n + ((of_char c :: nat) - 48) else n) 0 s"

definition directive_matches :: "char \<Rightarrow> string \<Rightarrow> (nat \<times> string) list" where
  "directive_matches d s =
     List.map_filter
       (\<lambda>alt. case match_classes alt s of
                 None \<Rightarrow> None
               | Some (m, rest) \<Rightarrow> Some (int_of_text m, rest))
       (directive_alts d)"

definition set_field :: "char \<Rightarrow> nat \<Rightarrow> datetime \<Rightarrow> datetime" where
  "set_field d v t =
     (if d = CHR ''Y'' then t\<lparr>year := v\<rparr>
      else if d = CHR ''m'' then t\<lparr>month := v\<rparr>
      else if d = CHR ''d'' then t\<lparr>day := v\<rparr>
      else if d = CHR ''H'' then t\<lparr>hour := v\<rparr>
      else if d = CHR ''M'' then t\<lparr>minute := v\<rparr>
      else if d = CHR ''S'' then t\<lparr>second := v\<rparr>
      else t)"

text \<open>
  Every way the items match a prefix of the text, in the order a backtracking matcher finds
  them, each with the fields read and the text left over. \<open>Spaces\<close> is greedy: the longest
  run of whitespace first.
\<close>

fun match_items :: "fmt_item list \<Rightarrow> string \<Rightarrow> datetime \<Rightarrow> (datetime \<times> string) list" where
  "match_items [] s t = [(t, s)]"
| "match_items (Lit c # fmt) s t =
     (case s of [] \<Rightarrow> [] | x # s' \<Rightarrow> if x = c then match_items fmt s' t else [])"
| "match_items (Spaces # fmt) s t =
     concat (map (\<lambda>k. match_items fmt (drop k s) t)
                 (rev [1 ..< Suc (length (takeWhile is_space s))]))"
| "match_items (Dir d # fmt) s t =
     concat (map (\<lambda>(v, rest). match_items fmt rest (set_field d v t)) (directive_matches d s))"

definition leap_year :: "nat \<Rightarrow> bool" where
  "leap_year y = (y mod 4 = 0 \<and> (y mod 100 \<noteq> 0 \<or> y mod 400 = 0))"

definition days_in_month :: "nat \<Rightarrow> nat \<Rightarrow> nat" where
  "days_in_month y m =
     (if m = 2 then (if leap_year y then 29 else 28)
      else if m = 4 \<or> m = 6 \<or> m = 9 \<or> m = 11 then 30 else 31)"

text \<open>What the \<open>datetime\<close> constructor accepts.\<close>

definition valid_datetime :: "datetime \<Rightarrow> bool" where
  "valid_datetime t =
     (1 \<le> year t \<and> year t \<le> 9999 \<and> 1 \<le> month t \<and> month t \<le> 12
      \<and> 1 \<le> day t \<and> day t \<le> days_in_month (year t) (month t)
      \<and> hour t \<le> 23 \<and> minute t \<le> 59 \<and> second t \<le> 59)"

text \<open>A field the format does not name keeps its default: 1900-01-01 00:00:00.\<close>

definition strptime_default :: datetime where
  "strptime_default = \<lparr>year = 1900, month = 1, day = 1, hour = 0, minute = 0, second = 0\<rparr>"

text \<open>
  \<open>datetime.strptime(s, fmt)\<close>; \<open>None\<close> stands for the
  \<open>ValueError\<close> it raises.
\<close>

definition strptime :: "string \<Rightarrow> fmt_item list \<Rightarrow> datetime option" where
  "strptime s fmt =
     (case match_items fmt s strptime_default of
        [] \<Rightarrow> None
      | (t, rest) # _ \<Rightarrow> if rest = [] \<and> valid_datetime t then Some t else None)"

section \<open>The timestamp parsers of clean.py\<close>

text \<open>\<open>DT_FORMAT = "%Y-%m-%d %H:%M"\<close> (line 100).\<close>

definition DT_FORMAT :: "fmt_item list" where
  "DT_FORMAT =
     [Dir CHR ''Y'', Lit CHR ''-'', Dir CHR ''m'', Lit CHR ''-'', Dir CHR ''d'', Spaces,
      Dir CHR ''H'', Lit CHR '':'', Dir CHR ''M'']"

text \<open>\<open>"%H:%M"\<close> (lines 171 and 180).\<close>

definition HM_FORMAT :: "fmt_item list" where
  "HM_FORMAT = [Dir CHR ''H'', Lit CHR '':'', Dir CHR ''M'']"

text \<open>\<open>"%Y-%m-%d %H:%M:%S"\<close> (line 237).\<close>

definition DTS_FORMAT :: "fmt_item list" where
  "DTS_FORMAT =
     [Dir CHR ''Y'', Lit CHR ''-'', Dir CHR ''m'', Lit CHR ''-'', Dir CHR ''d'', Spaces,
      Dir CHR ''H'', Lit CHR '':'', Dir CHR ''M'', Lit CHR '':'', Dir CHR ''S'']"

text \<open>\<open>"%H:%M:%S"\<close> (line 239).\<close>

definition HMS_FORMAT :: "fmt_item list" where
  "HMS_FORMAT = [Dir CHR ''H'', Lit CHR '':'', Dir CHR ''M'', Lit CHR '':'', Dir CHR ''S'']"

text \<open>\<open>date.today()\<close>, of which only the three fields are read.\<close>

record py_date =
  date_year :: nat
  date_month :: nat
  date_day :: nat

text \<open>\<open>t.replace(year=today.year, month=today.month, day=today.day)\<close>.\<close>

definition replace_date :: "py_date \<Rightarrow> datetime \<Rightarrow> datetime" where
  "replace_date today t =
     t\<lparr>year := date_year today, month := date_month today, day := date_day today\<rparr>"

text \<open>
  \<open>s.split()\<close>: the maximal runs of characters that are not whitespace.
\<close>

fun split_ws_from :: "string \<Rightarrow> string \<Rightarrow> string list" where
  "split_ws_from word [] = (if word = [] then [] else [rev word])"
| "split_ws_from word (c # s) =
     (if is_space c then (if word = [] then split_ws_from [] s else rev word # split_ws_from [] s)
      else split_ws_from (c # word) s)"

definition split_ws :: "string \<Rightarrow> string list" where
  "split_ws s = split_ws_from [] s"

text \<open>\<open>sep.join(parts)\<close>.\<close>

fun str_join :: "string \<Rightarrow> string list \<Rightarrow> string" where
  "str_join sep [] = []"
| "str_join sep [w] = w"
| "str_join sep (w # v # ws) = w @ sep @ str_join sep (v # ws)"

text \<open>
  The text handed to the contest-time parser (lines 166 and 175):
  \<open>" ".join(element.getText().split()[1:-1])\<close>, the words of the element without the first
  and the last. The slice \<open>[1:-1]\<close> of a list of fewer than two words is empty.
\<close>

definition contest_time_text :: "string \<Rightarrow> string" where
  "contest_time_text element_text = str_join '' '' (butlast (tl (split_ws element_text)))"

text \<open>
  Lines 164--172 (and 173--181): the contest start and end. The second \<open>strptime\<close> is
  outside any handler, so its \<open>ValueError\<close> ends the run.
\<close>

definition parse_contest_time :: "py_date \<Rightarrow> string \<Rightarrow> py_error + datetime" where
  "parse_contest_time today element_text =
     (let s = contest_time_text element_text in
      case strptime s DT_FORMAT of
        Some t \<Rightarrow> Inr t
      | None \<Rightarrow>
          (case strptime s HM_FORMAT of
             Some t \<Rightarrow> Inr (replace_date today t)
           | None \<Rightarrow> Inl ValueError))"

text \<open>
  Lines 235--240: the time of a submission row, from the text of its time cell.
\<close>

definition parse_submit_time :: "py_date \<Rightarrow> string \<Rightarrow> py_error + datetime" where
  "parse_submit_time today s =
     (case strptime s DTS_FORMAT of
        Some t \<Rightarrow> Inr t
      | None \<Rightarrow>
          (case strptime s HMS_FORMAT of
             Some t \<Rightarrow> Inr (replace_date today t)
           | None \<Rightarrow> Inl ValueError))"

section \<open>Submission scanner (clean.py, lines 208--262)\<close>

text \<open>
  One \<open>tr\<close> of a submissions page as the loop reads it:
  \<^item> \<open>row_class\<close>: \<open>submission.get("class")\<close>;
  \<^item> \<open>data_submission_id\<close>: \<open>submission.get("data-submission-id")\<close>;
  \<^item> \<open>time_text\<close>: the text of the cell with \<open>data-type="time"\<close>, \<open>None\<close> when the row has
    no such cell;
  \<^item> \<open>author_text\<close>: the text of the link in the cell with \<open>data-type="author"\<close>, \<open>None\<close>
    when the cell or its link is missing (the \<open>AttributeError\<close> the loop catches);
  \<^item> \<open>status_text\<close>: the text of the status cell of the row. The loop never reads it;
  \<^item> \<open>warning_high\<close>, \<open>warning\<close>: whether the row holds an element of class
    \<open>plagiarism-warning-high\<close>, respectively \<open>plagiarism-warning\<close>.
\<close>

record submission =
  row_class :: "string list option"
  data_submission_id :: "string option"
  time_text :: "string option"
  author_text :: "string option"
  status_text :: string
  warning_high :: bool
  warning :: bool

text \<open>What the scan reads and never changes.\<close>

record scan_env =
  start_time :: datetime
  end_time :: datetime
  today :: py_date
  sets :: standings

text \<open>
  What the scan changes. \<open>submission_dict\<close> keeps the insertion order of the Python
  dictionary; \<open>author\<close> is the loop's variable of that name, \<open>None\<close> while it is unbound:
  the reconciler reads it after the scan.
\<close>

record scan_state =
  submission_dict :: "(string \<times> string) list"
  red_plagiarism :: "string set"
  yellow_plagiarism :: "string set"
  late_submission :: "string set"
  author :: "string option"

definition initial_state :: scan_state where
  "initial_state =
     \<lparr>submission_dict = [], red_plagiarism = {}, yellow_plagiarism = {}, late_submission = {},
      author = None\<rparr>"

text \<open>
  \<open>d[k] = v\<close>: a key already present keeps its place, a new one goes last.
\<close>

fun dict_set :: "('k \<times> 'v) list \<Rightarrow> 'k \<Rightarrow> 'v \<Rightarrow> ('k \<times> 'v) list" where
  "dict_set [] k v = [(k, v)]"
| "dict_set ((k', v') # d) k v = (if k' = k then (k, v) # d else (k', v') # dict_set d k v)"

text \<open>
  How an iteration of a loop ends: it falls through or continues, or it breaks.
\<close>

datatype 'a loop = Next 'a | Break 'a

definition is_testcases_row :: "submission \<Rightarrow> bool" where
  "is_testcases_row r =
     (case row_class r of None \<Rightarrow> False | Some cls \<Rightarrow> ''testcases-row'' \<in> set cls)"

text \<open>
  Lines 249--262: the updates for a row whose author is in \<open>student_list\<close>.
\<close>

definition record_row ::
    "scan_env \<Rightarrow> scan_state \<Rightarrow> submission \<Rightarrow> datetime \<Rightarrow> string \<Rightarrow> py_error + scan_state" where
  "record_row env st r submit_time a =
     (let st1 = (if dt_less (end_time env) submit_time \<and> a \<in> no_submission (sets env)
                 then st\<lparr>late_submission := insert a (late_submission st)\<rparr> else st) in
      case (if a \<in> accepted (sets env)
            then (case data_submission_id r of
                    None \<Rightarrow> Inl AttributeError
                  | Some i \<Rightarrow> Inr (st1\<lparr>submission_dict := dict_set (submission_dict st1) a (strip i)\<rparr>))
            else Inr st1) of
        Inl e \<Rightarrow> Inl e
      | Inr st2 \<Rightarrow>
          (let st3 = (if warning_high r
                      then st2\<lparr>red_plagiarism := insert a (red_plagiarism st2)\<rparr> else st2);
               st4 = (if warning r
                      then st3\<lparr>yellow_plagiarism := insert a (yellow_plagiarism st3)\<rparr> else st3)
           in Inr st4))"

text \<open>Lines 232--262: the body of the loop over the rows of one page.\<close>

definition scan_row :: "scan_env \<Rightarrow> scan_state \<Rightarrow> submission \<Rightarrow> py_error + scan_state loop" where
  "scan_row env st r =
     (if is_testcases_row r then Inr (Next st)
      else case time_text r of
        None \<Rightarrow> Inl AttributeError
      | Some txt \<Rightarrow>
          (case parse_submit_time (today env) txt of
             Inl e \<Rightarrow> Inl e
           | Inr submit_time \<Rightarrow>
               if dt_less submit_time (start_time env) then Inr (Break st)
               else (case author_text r of
                       None \<Rightarrow> Inr (Next st)
                     | Some txt_a \<Rightarrow>
                         (let a = strip txt_a; st0 = st\<lparr>author := Some a\<rparr> in
                          if a \<in> roster (sets env)
                          then (case record_row env st0 r submit_time a of
                                  Inl e \<Rightarrow> Inl e
                                | Inr st' \<Rightarrow> Inr (Next st'))
                          else Inr (Next st0)))))"

text \<open>
  Line 231: the loop over the rows of one page; \<open>Break\<close> is \<open>loop = False;
  break\<close>.
\<close>

fun scan_rows :: "scan_env \<Rightarrow> scan_state \<Rightarrow> submission list \<Rightarrow> py_error + scan_state loop" where
  "scan_rows env st [] = Inr (Next st)"
| "scan_rows env st (r # rs) =
     (case scan_row env st r of
        Inl e \<Rightarrow> Inl e
      | Inr (Break st') \<Rightarrow> Inr (Break st')
      | Inr (Next st') \<Rightarrow> scan_rows env st' rs)"

text \<open>
  Lines 218--262: \<open>while loop:\<close>, one page per round. \<open>feed page\<close> is what the server
  answers for that page number: the rows found after the body of the table \<open>judge_table\<close>,
  or \<open>None\<close> when the page has no such table, where the lookup raises \<open>AttributeError\<close>.
  Nothing but a row older than the start ends the loop, so it may run forever: the result is
  \<open>None\<close> then.
\<close>

partial_function (option) scan_pages ::
    "scan_env \<Rightarrow> (nat \<Rightarrow> submission list option) \<Rightarrow> nat \<Rightarrow> scan_state \<Rightarrow> (py_error + scan_state) option" where
  "scan_pages env feed page st =
     (case feed page of
        None \<Rightarrow> Some (Inl AttributeError)
      | Some submissions \<Rightarrow>
          (case scan_rows env st submissions of
             Inl e \<Rightarrow> Some (Inl e)
           | Inr (Break st') \<Rightarrow> Some (Inr st')
           | Inr (Next st') \<Rightarrow> scan_pages env feed (page + 1) st'))"

definition scan :: "scan_env \<Rightarrow> (nat \<Rightarrow> submission list option) \<Rightarrow> (py_error + scan_state) option" where
  "scan env feed = scan_pages env feed 0 initial_state"

section \<open>Reconciler and report (clean.py, lines 266--298)\<close>

text \<open>
  The submissions directory as \<open>os.listdir\<close> and \<open>os.path.isdir\<close> show it: the names of
  its entries, each with whether it is a directory. \<open>None\<close> is a directory that does not
  exist.
\<close>

type_synonym listing = "(string \<times> bool) list"

text \<open>
  Lines 273--275: every entry that is a directory and whose name is no id is removed.
\<close>

definition remove_redundant :: "string list \<Rightarrow> listing \<Rightarrow> listing" where
  "remove_redundant submission_id_list entries =
     filter (\<lambda>(name, is_dir). \<not> (name \<notin> set submission_id_list \<and> is_dir)) entries"

text \<open>
  Lines 276--278: for each id that is no entry of the directory, the loop appends the variable
  \<open>author\<close>, which the scan left behind.
\<close>

fun collect_missing :: "string option \<Rightarrow> listing \<Rightarrow> string list \<Rightarrow> string list \<Rightarrow> py_error + string list" where
  "collect_missing au entries missing [] = Inr missing"
| "collect_missing au entries missing (i # ids) =
     (if i \<notin> set (map fst entries)
      then (case au of
              None \<Rightarrow> Inl NameError
            | Some a \<Rightarrow> collect_missing au entries (missing @ [a]) ids)
      else collect_missing au entries missing ids)"

datatype warning_message = Folder_Empty | Folder_Not_Found

record reconciled =
  directory :: "listing option"
  missing_submission :: "string list"
  warned :: "warning_message option"

text \<open>Lines 266--282.\<close>

definition reconcile :: "scan_state \<Rightarrow> listing option \<Rightarrow> py_error + reconciled" where
  "reconcile st dir =
     (let submission_id_list = map snd (submission_dict st) in
      case dir of
        None \<Rightarrow> Inr \<lparr>directory = None, missing_submission = [], warned = Some Folder_Not_Found\<rparr>
      | Some entries \<Rightarrow>
          if length entries = 0
          then Inr \<lparr>directory = Some entries, missing_submission = [], warned = Some Folder_Empty\<rparr>
          else (let kept = remove_redundant submission_id_list entries in
                case collect_missing (author st) kept [] submission_id_list of
                  Inl e \<Rightarrow> Inl e
                | Inr missing \<Rightarrow>
                    Inr \<lparr>directory = Some kept, missing_submission = missing, warned = None\<rparr>))"

text \<open>
  Lines 285--290 and 293--298: the six lists of the report, each \<open>sorted(...)\<close> of
  a set.
\<close>

record report =
  red_line :: "string list"
  yellow_line :: "string list"
  early_line :: "string list"
  late_line :: "string list"
  attempted_line :: "string list"
  no_submission_line :: "string list"

definition make_report :: "standings \<Rightarrow> scan_state \<Rightarrow> report" where
  "make_report S st =
     \<lparr>red_line = sorted_list_of_set (red_plagiarism st),
      yellow_line = sorted_list_of_set (yellow_plagiarism st - red_plagiarism st),
      early_line = sorted_list_of_set (accepted S - set (map fst (submission_dict st))),
      late_line = sorted_list_of_set (late_submission st),
      attempted_line = sorted_list_of_set (attempted S - late_submission st),
      no_submission_line = sorted_list_of_set (no_submission S - late_submission st)\<rparr>"

section \<open>Raw-file fetcher (get\_file.py)\<close>

text \<open>
  \<open>s.split(sep)\<close> for a separator of one character: always at least one part.
\<close>

fun split_on :: "char \<Rightarrow> string \<Rightarrow> string list" where
  "split_on sep [] = [[]]"
| "split_on sep (c # s) =
     (if c = sep then [] # split_on sep s
      else (case split_on sep s of [] \<Rightarrow> [[c]] | w # ws \<Rightarrow> (c # w) # ws))"

text \<open>
  \<open>os.path.join\<close> on a POSIX system: a component that starts with a slash discards what
  came before it, otherwise it is appended after a single slash.
\<close>

definition join2 :: "string \<Rightarrow> string \<Rightarrow> string" where
  "join2 a b =
     (if b \<noteq> [] \<and> hd b = CHR ''/'' then b
      else if a = [] \<or> last a = CHR ''/'' then a @ b
      else a @ ''/'' @ b)"

definition path_join :: "string \<Rightarrow> string list \<Rightarrow> string" where
  "path_join a bs = foldl join2 a bs"

text \<open>
  The file tree as the calls of the script see it. A path is resolved to the list of its
  components from the root; \<open>nodes\<close> gives the node at each, and the root is a directory.
  \<open>refusal\<close> is the error with which the operating system refuses to create or to write a
  path for a reason other than the shape of the tree (permissions, a name too long, a full
  disk), \<open>None\<close> when it does not refuse. Symbolic links and the component \<open>..\<close> are not
  modelled: the properties of the fetcher are stated for paths without them.
\<close>

datatype node = Directory | Regular string

record filesystem =
  nodes :: "string list \<rightharpoonup> node"
  refusal :: "string list \<Rightarrow> py_error option"

text \<open>
  The components the operating system walks for a path: empty components and \<open>.\<close> are
  skipped.
\<close>

definition path_components :: "string \<Rightarrow> string list" where
  "path_components p = filter (\<lambda>s. s \<noteq> [] \<and> s \<noteq> ''.'') (split_on CHR ''/'' p)"

definition node_at :: "filesystem \<Rightarrow> string list \<Rightarrow> node option" where
  "node_at fs c = (if c = [] then Some Directory else nodes fs c)"

text \<open>\<open>os.path.isdir(p)\<close>.\<close>

definition isdir :: "filesystem \<Rightarrow> string \<Rightarrow> bool" where
  "isdir fs p = (node_at fs (path_components p) = Some Directory)"

text \<open>
  \<open>os.mkdir(p)\<close>: the path must not exist and its parent must be a directory.
\<close>

definition create_directory :: "filesystem \<Rightarrow> string list \<Rightarrow> py_error + filesystem" where
  "create_directory fs c =
     (case refusal fs c of
        Some e \<Rightarrow> Inl e
      | None \<Rightarrow>
          (case node_at fs c of
             Some n \<Rightarrow> Inl FileExistsError
           | None \<Rightarrow>
               (case node_at fs (butlast c) of
                  None \<Rightarrow> Inl FileNotFoundError
                | Some (Regular t) \<Rightarrow> Inl NotADirectoryError
                | Some Directory \<Rightarrow> Inr (fs\<lparr>nodes := (nodes fs)(c \<mapsto> Directory)\<rparr>))))"

definition mkdir :: "filesystem \<Rightarrow> string \<Rightarrow> py_error + filesystem" where
  "mkdir fs p = create_directory fs (path_components p)"

text \<open>
  \<open>with open(p, 'w') as f: f.write(content)\<close>: the path must not be a directory; a file
  that exists is overwritten, and a new one needs its parent to be a directory.
\<close>

definition store_file :: "filesystem \<Rightarrow> string list \<Rightarrow> string \<Rightarrow> py_error + filesystem" where
  "store_file fs c content =
     (case refusal fs c of
        Some e \<Rightarrow> Inl e
      | None \<Rightarrow>
          (case node_at fs c of
             Some Directory \<Rightarrow> Inl IsADirectoryError
           | Some (Regular t) \<Rightarrow> Inr (fs\<lparr>nodes := (nodes fs)(c \<mapsto> Regular content)\<rparr>)
           | None \<Rightarrow>
               (case node_at fs (butlast c) of
                  None \<Rightarrow> Inl FileNotFoundError
                | Some (Regular t) \<Rightarrow> Inl NotADirectoryError
                | Some Directory \<Rightarrow> Inr (fs\<lparr>nodes := (nodes fs)(c \<mapsto> Regular content)\<rparr>))))"

definition write_file :: "filesystem \<Rightarrow> string \<Rightarrow> string \<Rightarrow> py_error + filesystem" where
  "write_file fs p content = store_file fs (path_components p) content"

text \<open>
  The script, lines 9--15. \<open>response\<close> is what \<open>requests.get(args.link)\<close> does: it raises,
  or it returns a reply whose \<open>text\<close> is given. \<open>path\<close> is \<open>parse_url(args.link).path\<close>,
  which is \<open>None\<close> for a URL with no path, and \<open>cwd\<close> is \<open>os.getcwd()\<close>. The result is
  the file tree the script leaves and the exception it ends with, if any.
\<close>

definition get_file ::
    "string \<Rightarrow> py_error + string \<Rightarrow> string option \<Rightarrow> filesystem \<Rightarrow> filesystem \<times> py_error option" where
  "get_file cwd response path fs =
     (case response of
        Inl e \<Rightarrow> (fs, Some e)
      | Inr file \<Rightarrow>
          (case path of
             None \<Rightarrow> (fs, Some AttributeError)
           | Some p \<Rightarrow>
               (let parsed = split_on CHR ''/'' p in
                case py_get parsed 1 of
                  Inl e \<Rightarrow> (fs, Some e)
                | Inr dir \<Rightarrow>
                    (case (if \<not> isdir fs (path_join cwd [''submissions'', dir])
                           then mkdir fs (path_join cwd [''submissions'', dir])
                           else Inr fs) of
                       Inl e \<Rightarrow> (fs, Some e)
                     | Inr fs1 \<Rightarrow>
                         (case py_get parsed (- 1) of
                            Inl e \<Rightarrow> (fs1, Some e)
                          | Inr name \<Rightarrow>
                              (case write_file fs1 (path_join cwd [''submissions'', dir, name]) file of
                                 Inl e \<Rightarrow> (fs1, Some e)
                               | Inr fs2 \<Rightarrow> (fs2, None)))))))"

section \<open>Notions used to state the properties of the scan\<close>

text \<open>
  The time the loop parses from a row: none for a row of test cases, which the loop skips
  before it reads a time, and none when there is no time cell or its text does not parse (the
  loop raises there).
\<close>

definition row_time :: "scan_env \<Rightarrow> submission \<Rightarrow> datetime option" where
  "row_time env r =
     (if is_testcases_row r then None
      else case time_text r of
        None \<Rightarrow> None
      | Some txt \<Rightarrow> (case parse_submit_time (today env) txt of Inl e \<Rightarrow> None | Inr t \<Rightarrow> Some t))"

text \<open>
  A row whose parsed time is strictly before the start of the contest: the row at which the
  loop stops.
\<close>

definition older :: "scan_env \<Rightarrow> submission \<Rightarrow> bool" where
  "older env r = (case row_time env r of None \<Rightarrow> False | Some t \<Rightarrow> dt_less t (start_time env))"

text \<open>The author the loop reads from a row: the stripped text of the author link.\<close>

definition row_author :: "submission \<Rightarrow> string option" where
  "row_author r = map_option strip (author_text r)"

text \<open>
  A submission row, with a time that parses, whose author reads \<open>a\<close>.
\<close>

definition by_author :: "scan_env \<Rightarrow> submission \<Rightarrow> string \<Rightarrow> bool" where
  "by_author env r a = (row_time env r \<noteq> None \<and> row_author r = Some a)"

text \<open>A row whose parsed time is strictly after the end of the contest.\<close>

definition after_end :: "scan_env \<Rightarrow> submission \<Rightarrow> bool" where
  "after_end env r = (case row_time env r of None \<Rightarrow> False | Some t \<Rightarrow> dt_less (end_time env) t)"

text \<open>The rows of a page, none for a page without table.\<close>

definition page_rows :: "(nat \<Rightarrow> submission list option) \<Rightarrow> nat \<Rightarrow> submission list" where
  "page_rows feed i = (case feed i of None \<Rightarrow> [] | Some rs \<Rightarrow> rs)"

text \<open>
  The rows of the pages \<open>i\<close> up to \<open>j - 1\<close>, in the order of the feed.
\<close>

definition rows_between :: "(nat \<Rightarrow> submission list option) \<Rightarrow> nat \<Rightarrow> nat \<Rightarrow> submission list" where
  "rows_between feed i j = concat (map (page_rows feed) [i ..< j])"

text \<open>
  \<open>rows\<close> are the rows the feed shows before its first row older than the start:
  that row \<open>r\<close> is on page \<open>p\<close> after \<open>pre\<close>, every page
  before \<open>p\<close> exists, and no row of \<open>rows\<close> is older than the start.
\<close>

definition scanned :: "scan_env \<Rightarrow> (nat \<Rightarrow> submission list option) \<Rightarrow> submission list \<Rightarrow> bool" where
  "scanned env feed rows =
     (\<exists>p pre r post.
        (\<forall>i<p. feed i \<noteq> None) \<and> feed p = Some (pre @ r # post) \<and> older env r
        \<and> (\<forall>x\<in>set rows. \<not> older env x) \<and> rows = rows_between feed 0 p @ pre)"

text \<open>
  Started on page \<open>p0\<close> in state \<open>st0\<close>, the scan meets its first
  older row on some page \<open>p\<close>, having reached state \<open>st\<close> on the rows
  before it.
\<close>

definition stops_at ::
    "scan_env \<Rightarrow> (nat \<Rightarrow> submission list option) \<Rightarrow> nat \<Rightarrow> scan_state \<Rightarrow> scan_state \<Rightarrow> bool" where
  "stops_at env feed p0 st0 st =
     (\<exists>p pre r post. p0 \<le> p \<and> (\<forall>i. p0 \<le> i \<and> i < p \<longrightarrow> feed i \<noteq> None)
        \<and> feed p = Some (pre @ r # post) \<and> older env r
        \<and> scan_rows env st0 (rows_between feed p0 p @ pre) = Inr (Next st))"

text \<open>A row whose parsed time lies in the contest window, both ends included.\<close>

definition in_window :: "scan_env \<Rightarrow> submission \<Rightarrow> bool" where
  "in_window env r =
     (case row_time env r of
        None \<Rightarrow> False
      | Some t \<Rightarrow> \<not> dt_less t (start_time env) \<and> \<not> dt_less (end_time env) t)"

text \<open>Both rows have a parsed time and the first is strictly before the second.\<close>

definition earlier :: "scan_env \<Rightarrow> submission \<Rightarrow> submission \<Rightarrow> bool" where
  "earlier env x y =
     (case row_time env x of
        None \<Rightarrow> False
      | Some s \<Rightarrow> (case row_time env y of None \<Rightarrow> False | Some t \<Rightarrow> dt_less s t))"

text \<open>
  The rows come newest first: no row is strictly earlier than a row that follows it.
\<close>

definition newest_first :: "scan_env \<Rightarrow> submission list \<Rightarrow> bool" where
  "newest_first env rows = sorted_wrt (\<lambda>x y. \<not> earlier env x y) rows"

text \<open>The last row by author \<open>a\<close> in a list of rows.\<close>

definition last_row_by :: "scan_env \<Rightarrow> submission list \<Rightarrow> string \<Rightarrow> submission" where
  "last_row_by env rows a = last (filter (\<lambda>y. by_author env y a) rows)"

section \<open>A worked example\<close>

text \<open>
  A contest on 2024-01-05 from 09:00 to 12:00, read on the day after. Amy has solved the
  problem, Bob has tried and Cat has not submitted. The feed has two pages, newest first:
  Cat at 13:00, a row of test cases, Amy at 11:00 with both plagiarism markers; then Amy at
  10:00, Dan (who is not on the roster) at 09:30 with the high marker, Bob at 08:00, before
  the start, with both markers, and Amy at 07:00.
\<close>

definition ex_sets :: standings where
  "ex_sets = \<lparr>accepted = {''amy''}, attempted = {''bob''}, no_submission = {''cat''}\<rparr>"

definition ex_env :: scan_env where
  "ex_env =
     \<lparr>start_time = \<lparr>year = 2024, month = 1, day = 5, hour = 9, minute = 0, second = 0\<rparr>,
      end_time = \<lparr>year = 2024, month = 1, day = 5, hour = 12, minute = 0, second = 0\<rparr>,
      today = \<lparr>date_year = 2024, date_month = 1, date_day = 6\<rparr>,
      sets = ex_sets\<rparr>"

definition ex_row1 :: submission where
  "ex_row1 =
     \<lparr>row_class = None, data_submission_id = Some ''105'',
      time_text = Some ''2024-01-05 13:00:00'', author_text = Some '' cat '',
      status_text = ''Accepted'', warning_high = False, warning = False\<rparr>"

definition ex_row2 :: submission where
  "ex_row2 =
     \<lparr>row_class = Some [''testcases-row''], data_submission_id = None,
      time_text = None, author_text = None,
      status_text = [], warning_high = False, warning = False\<rparr>"

definition ex_row3 :: submission where
  "ex_row3 =
     \<lparr>row_class = None, data_submission_id = Some ''104'',
      time_text = Some ''2024-01-05 11:00:00'', author_text = Some ''amy'',
      status_text = ''Accepted'', warning_high = True, warning = True\<rparr>"

definition ex_row4 :: submission where
  "ex_row4 =
     \<lparr>row_class = None, data_submission_id = Some '' 103 '',
      time_text = Some ''2024-01-05 10:00:00'', author_text = Some ''amy'',
      status_text = ''Accepted'', warning_high = False, warning = False\<rparr>"

definition ex_row5 :: submission where
  "ex_row5 =
     \<lparr>row_class = None, data_submission_id = Some ''102'',
      time_text = Some ''2024-01-05 09:30:00'', author_text = Some ''dan'',
      status_text = ''Accepted'', warning_high = True, warning = False\<rparr>"

definition ex_row6 :: submission where
  "ex_row6 =
     \<lparr>row_class = None, data_submission_id = Some ''101'',
      time_text = Some ''2024-01-05 08:00:00'', author_text = Some ''bob'',
      status_text = ''Accepted'', warning_high = True, warning = True\<rparr>"

definition ex_row7 :: submission where
  "ex_row7 =
     \<lparr>row_class = None, data_submission_id = Some ''100'',
      time_text = Some ''2024-01-05 07:00:00'', author_text = Some ''amy'',
      status_text = ''Accepted'', warning_high = False, warning = False\<rparr>"

definition ex_feed :: "nat \<Rightarrow> submission list option" where
  "ex_feed page =
     (if page = 0 then Some [ex_row1, ex_row2, ex_row3]
      else if page = 1 then Some [ex_row4, ex_row5, ex_row6, ex_row7]
      else None)"

definition ex_rows :: "submission list" where
  "ex_rows = [ex_row1, ex_row2, ex_row3, ex_row4, ex_row5]"

definition ex_state :: scan_state where
  "ex_state =
     \<lparr>submission_dict = [(''amy'', ''103'')], red_plagiarism = {''amy''},
      yellow_plagiarism = {''amy''}, late_submission = {''cat''}, author = Some ''dan''\<rparr>"

text \<open>A feed whose only row in the window is a rejected submission of Amy.\<close>

definition cx_row :: submission where
  "cx_row =
     \<lparr>row_class = None, data_submission_id = Some ''77'',
      time_text = Some ''2024-01-05 10:00:00'', author_text = Some ''amy'',
      status_text = ''Wrong Answer'', warning_high = False, warning = False\<rparr>"

definition cx_feed :: "nat \<Rightarrow> submission list option" where
  "cx_feed page = (if page = 0 then Some [cx_row, ex_row6] else None)"

section \<open>Notions used to state the properties of the parsers and of the fetcher\<close>

text \<open>
  The two-format fallback in the words of the specification: the full format is tried first,
  else the bare time of day is parsed and combined with today's date. Its two formats are
  parameters.
\<close>

definition two_format_fallback ::
    "fmt_item list \<Rightarrow> fmt_item list \<Rightarrow> py_date \<Rightarrow> string \<Rightarrow> py_error + datetime" where
  "two_format_fallback full bare td s =
     (case strptime s full of
        Some t \<Rightarrow> Inr t
      | None \<Rightarrow>
          (case strptime s bare of
             Some t \<Rightarrow> Inr (replace_date td t)
           | None \<Rightarrow> Inl ValueError))"

text \<open>
  The path segments of a URL in the words of the specification: the non-empty components of
  its path, in order.
\<close>

definition path_segments :: "string \<Rightarrow> string list" where
  "path_segments p = filter (\<lambda>s. s \<noteq> []) (split_on CHR ''/'' p)"

text \<open>The path whose components are the given segments, each after a slash.\<close>

definition url_path :: "string list \<Rightarrow> string" where
  "url_path segs = concat (map (\<lambda>s. CHR ''/'' # s) segs)"

section \<open>Further examples\<close>

definition ex_today :: py_date where
  "ex_today = \<lparr>date_year = 2024, date_month = 1, date_day = 6\<rparr>"

text \<open>
  A run for the reconciler: Amy and Bob have solved the problem; the feed shows Bob's
  submission 4, Amy's submission 2, a submission of Dan, who is not on the roster, and a row
  from before the start. The submissions directory holds the directories 1, 2 and 3.
\<close>

definition c7_env :: scan_env where
  "c7_env =
     \<lparr>start_time = \<lparr>year = 2024, month = 1, day = 5, hour = 9, minute = 0, second = 0\<rparr>,
      end_time = \<lparr>year = 2024, month = 1, day = 5, hour = 12, minute = 0, second = 0\<rparr>,
      today = \<lparr>date_year = 2024, date_month = 1, date_day = 6\<rparr>,
      sets = \<lparr>accepted = {''amy'', ''bob''}, attempted = {}, no_submission = {''cat''}\<rparr>\<rparr>"

definition c7_row1 :: submission where
  "c7_row1 =
     \<lparr>row_class = None, data_submission_id = Some ''4'',
      time_text = Some ''2024-01-05 11:00:00'', author_text = Some ''bob'',
      status_text = ''Accepted'', warning_high = False, warning = False\<rparr>"

definition c7_row2 :: submission where
  "c7_row2 =
     \<lparr>row_class = None, data_submission_id = Some ''2'',
      time_text = Some ''2024-01-05 10:00:00'', author_text = Some ''amy'',
      status_text = ''Accepted'', warning_high = False, warning = False\<rparr>"

definition c7_feed :: "nat \<Rightarrow> submission list option" where
  "c7_feed page = (if page = 0 then Some [c7_row1, c7_row2, ex_row5, ex_row6] else None)"

definition c7_state :: scan_state where
  "c7_state =
     \<lparr>submission_dict = [(''bob'', ''4''), (''amy'', ''2'')], red_plagiarism = {},
      yellow_plagiarism = {}, late_submission = {}, author = Some ''dan''\<rparr>"

definition c7_directory :: listing where
  "c7_directory = [(''1'', True), (''2'', True), (''3'', True)]"

text \<open>
  Two file trees for the fetcher, both with the working directory \<open>/home/ta\<close>: one with
  the directory \<open>submissions\<close> in it, one without.
\<close>

definition ex_fs :: filesystem where
  "ex_fs =
     \<lparr>nodes = [[''home''] \<mapsto> Directory, [''home'', ''ta''] \<mapsto> Directory,
               [''home'', ''ta'', ''submissions''] \<mapsto> Directory],
      refusal = (\<lambda>c. None)\<rparr>"

definition empty_fs :: filesystem where
  "empty_fs = \<lparr>nodes = [[''home''] \<mapsto> Directory, [''home'', ''ta''] \<mapsto> Directory],
               refusal = (\<lambda>c. None)\<rparr>"

section \<open>Properties of the standings parser\<close>

lemma classify_row_roster:
  "classify_row q S r = Inr S' \<Longrightarrow> roster S' = insert (username_of r) (roster S)"
  by (auto simp: classify_row_def roster_def Let_def split: sum.splits option.splits if_splits)

lemma classify_rows_roster:
  "classify_rows q S rs = Inr S' \<Longrightarrow> roster S' = roster S \<union> username_of ` set rs"
proof (induction rs arbitrary: S)
  case Nil
  then show ?case by simp
next
  case (Cons r rs)
  from Cons.prems obtain S1 where
    step: "classify_row q S r = Inr S1" and rest: "classify_rows q S1 rs = Inr S'"
    by (auto split: sum.splits)
  from Cons.IH [OF rest] classify_row_roster [OF step] show ?case by auto
qed

lemma classify_row_disjoint:
  assumes "classify_row q S r = Inr S'" "pairwise_disjoint S" "username_of r \<notin> roster S"
  shows "pairwise_disjoint S'"
  using assms
  by (auto simp: classify_row_def roster_def pairwise_disjoint_def Let_def
      split: sum.splits option.splits if_splits)

lemma classify_rows_disjoint:
  assumes "classify_rows q S rs = Inr S'" "pairwise_disjoint S"
    "distinct (map username_of rs)" "username_of ` set rs \<inter> roster S = {}"
  shows "pairwise_disjoint S'"
  using assms
proof (induction rs arbitrary: S)
  case Nil
  then show ?case by simp
next
  case (Cons r rs)
  from Cons.prems(1) obtain S1 where
    step: "classify_row q S r = Inr S1" and rest: "classify_rows q S1 rs = Inr S'"
    by (auto split: sum.splits)
  have fresh: "username_of r \<notin> roster S" using Cons.prems(4) by auto
  have d1: "pairwise_disjoint S1"
    by (rule classify_row_disjoint [OF step Cons.prems(2) fresh])
  have r1: "roster S1 = insert (username_of r) (roster S)"
    by (rule classify_row_roster [OF step])
  have "username_of ` set rs \<inter> roster S1 = {}"
    using Cons.prems(3,4) r1 by auto
  moreover have "distinct (map username_of rs)" using Cons.prems(3) by simp
  ultimately show ?case using Cons.IH [OF rest d1] by blast
qed

text \<open>
  C1 (as stated, refuted): "for every standings table the three primary sets are pairwise
  disjoint". Two rows whose link text is the same name, one with no class on the selected
  cell and one solved, put that name into both \<open>no_submission\<close> and \<open>accepted\<close>.
\<close>

theorem C1_duplicate_name_counterexample:
  "classify_standings 0
     [\<lparr>link_text = ''amy'', cell_classes = [None]\<rparr>,
      \<lparr>link_text = ''amy'', cell_classes = [Some [''solved'']]\<rparr>]
   = Inr \<lparr>accepted = {''amy''}, attempted = {}, no_submission = {''amy''}\<rparr>
   \<and> \<not> pairwise_disjoint \<lparr>accepted = {''amy''}, attempted = {}, no_submission = {''amy''}\<rparr>"
  by (simp add: classify_standings_def empty_standings_def classify_row_def py_get_def
      username_of_def strip_def is_space_def pairwise_disjoint_def)

text \<open>
  C1 (amended): whenever the standings loop finishes without raising, the union of the three
  primary sets is exactly the set of usernames read from the student rows, and the three
  sets are pairwise disjoint provided no username is read from two rows.
\<close>

theorem C1_standings_partition:
  assumes "classify_standings q rows = Inr S"
  shows "roster S = username_of ` set rows
         \<and> (distinct (map username_of rows) \<longrightarrow> pairwise_disjoint S)"
proof -
  from assms have run: "classify_rows q empty_standings rows = Inr S"
    by (simp add: classify_standings_def)
  have "roster empty_standings = {}" by (simp add: roster_def empty_standings_def)
  with classify_rows_roster [OF run] have u: "roster S = username_of ` set rows" by simp
  have "pairwise_disjoint empty_standings"
    by (simp add: pairwise_disjoint_def empty_standings_def)
  moreover have "username_of ` set rows \<inter> roster empty_standings = {}"
    by (simp add: roster_def empty_standings_def)
  ultimately have "distinct (map username_of rows) \<Longrightarrow> pairwise_disjoint S"
    using classify_rows_disjoint [OF run] by blast
  with u show ?thesis by blast
qed

text \<open>Three students with distinct names, classified by the second column.\<close>

theorem C1_standings_partition_witness:
  "classify_standings 1
     [\<lparr>link_text = '' amy '', cell_classes = [None, Some [''solved'']]\<rparr>,
      \<lparr>link_text = ''bob'', cell_classes = [None, Some [''attempted'']]\<rparr>,
      \<lparr>link_text = ''cat'', cell_classes = [None, None]\<rparr>]
   = Inr \<lparr>accepted = {''amy''}, attempted = {''bob''}, no_submission = {''cat''}\<rparr>
   \<and> roster \<lparr>accepted = {''amy''}, attempted = {''bob''}, no_submission = {''cat''}\<rparr>
       = {''amy'', ''bob'', ''cat''}
   \<and> pairwise_disjoint \<lparr>accepted = {''amy''}, attempted = {''bob''}, no_submission = {''cat''}\<rparr>"
proof -
  let ?rows = "[\<lparr>link_text = '' amy '', cell_classes = [None, Some [''solved'']]\<rparr>,
      \<lparr>link_text = ''bob'', cell_classes = [None, Some [''attempted'']]\<rparr>,
      \<lparr>link_text = ''cat'', cell_classes = [None, None]\<rparr>]"
  let ?S = "\<lparr>accepted = {''amy''}, attempted = {''bob''}, no_submission = {''cat''}\<rparr>"
  have run: "classify_standings 1 ?rows = Inr ?S"
    by (simp add: classify_standings_def empty_standings_def classify_row_def py_get_def
        username_of_def strip_def is_space_def)
  have names: "map username_of ?rows = [''amy'', ''bob'', ''cat'']"
    by (simp add: username_of_def strip_def is_space_def)
  have d: "distinct (map username_of ?rows)" unfolding names by simp
  have img: "username_of ` set ?rows = set (map username_of ?rows)" by simp
  note part = C1_standings_partition [OF run]
  from part d have p: "pairwise_disjoint ?S" by blast
  from part have "roster ?S = set (map username_of ?rows)" unfolding img by blast
  then have u: "roster ?S = {''amy'', ''bob'', ''cat''}" unfolding names by simp
  from run u p show ?thesis by blast
qed

section \<open>Properties of the submission scanner\<close>

lemma dict_set_map_of: "map_of (dict_set d k v) = (map_of d)(k \<mapsto> v)"
  by (induction d k v rule: dict_set.induct) auto

lemma dict_set_keys: "fst ` set (dict_set d k v) = insert k (fst ` set d)"
  by (induction d k v rule: dict_set.induct) auto

lemma record_row_late:
  "record_row env st r t a = Inr st' \<Longrightarrow>
   late_submission st' =
     (if dt_less (end_time env) t \<and> a \<in> no_submission (sets env)
      then insert a (late_submission st) else late_submission st)"
  by (auto simp: record_row_def Let_def split: if_splits option.splits)

lemma record_row_red:
  "record_row env st r t a = Inr st' \<Longrightarrow>
   red_plagiarism st' = (if warning_high r then insert a (red_plagiarism st) else red_plagiarism st)"
  by (auto simp: record_row_def Let_def split: if_splits option.splits)

lemma record_row_yellow:
  "record_row env st r t a = Inr st' \<Longrightarrow>
   yellow_plagiarism st' = (if warning r then insert a (yellow_plagiarism st) else yellow_plagiarism st)"
  by (auto simp: record_row_def Let_def split: if_splits option.splits)

lemma record_row_dict:
  "record_row env st r t a = Inr st' \<Longrightarrow>
   (if a \<in> accepted (sets env)
    then \<exists>i. data_submission_id r = Some i
           \<and> submission_dict st' = dict_set (submission_dict st) a (strip i)
    else submission_dict st' = submission_dict st)"
  by (auto simp: record_row_def Let_def split: if_splits option.splits)

lemma scan_row_Break: "scan_row env st r = Inr (Break st') \<longleftrightarrow> older env r \<and> st' = st"
  by (auto simp: scan_row_def older_def row_time_def Let_def
      split: if_splits option.splits sum.splits)

lemma scan_row_Next:
  assumes "scan_row env st r = Inr (Next st')"
  shows "\<not> older env r"
    and "row_time env r = None \<or> row_author r = None \<Longrightarrow> st' = st"
    and "row_time env r = Some t \<Longrightarrow> row_author r = Some a \<Longrightarrow> a \<notin> roster (sets env) \<Longrightarrow>
         st' = st\<lparr>author := Some a\<rparr>"
    and "row_time env r = Some t \<Longrightarrow> row_author r = Some a \<Longrightarrow> a \<in> roster (sets env) \<Longrightarrow>
         record_row env (st\<lparr>author := Some a\<rparr>) r t a = Inr st'"
  using assms
  by (auto simp: scan_row_def older_def row_time_def row_author_def Let_def
      split: if_splits option.splits sum.splits)

lemma author_update_fields [simp]:
  "late_submission (st\<lparr>author := x\<rparr>) = late_submission st"
  "red_plagiarism (st\<lparr>author := x\<rparr>) = red_plagiarism st"
  "yellow_plagiarism (st\<lparr>author := x\<rparr>) = yellow_plagiarism st"
  "submission_dict (st\<lparr>author := x\<rparr>) = submission_dict st"
  by simp_all

lemma scan_row_cases:
  assumes "scan_row env st r = Inr (Next st')"
  obtains (skipped) "\<forall>a. \<not> by_author env r a" "st' = st"
  | (outsider) t a where "row_time env r = Some t" "row_author r = Some a"
      "a \<notin> roster (sets env)" "st' = st\<lparr>author := Some a\<rparr>"
  | (recorded) t a where "row_time env r = Some t" "row_author r = Some a"
      "a \<in> roster (sets env)" "record_row env (st\<lparr>author := Some a\<rparr>) r t a = Inr st'"
proof (cases "row_time env r")
  case None
  then show ?thesis using scan_row_Next(2) [OF assms] skipped by (simp add: by_author_def)
next
  case (Some t)
  note rt = this
  show ?thesis
  proof (cases "row_author r")
    case None
    then show ?thesis using scan_row_Next(2) [OF assms] skipped by (simp add: by_author_def)
  next
    case (Some a)
    show ?thesis
    proof (cases "a \<in> roster (sets env)")
      case True
      then show ?thesis using scan_row_Next(4) [OF assms rt Some] recorded rt Some by blast
    next
      case False
      then show ?thesis using scan_row_Next(3) [OF assms rt Some] outsider rt Some by blast
    qed
  qed
qed

lemma scan_row_late:
  assumes "scan_row env st r = Inr (Next st')"
  shows "late_submission st' = late_submission st
           \<union> {a. by_author env r a \<and> after_end env r \<and> a \<in> no_submission (sets env)}"
  using assms
proof (cases rule: scan_row_cases)
  case skipped
  then show ?thesis by auto
next
  case (outsider t a)
  then show ?thesis by (auto simp: by_author_def roster_def)
next
  case (recorded t a)
  from record_row_late [OF recorded(4)] recorded(1,2) show ?thesis
    by (auto simp: by_author_def after_end_def)
qed

lemma scan_row_red:
  assumes "scan_row env st r = Inr (Next st')"
  shows "red_plagiarism st' = red_plagiarism st
           \<union> {a. by_author env r a \<and> a \<in> roster (sets env) \<and> warning_high r}"
  using assms
proof (cases rule: scan_row_cases)
  case skipped
  then show ?thesis by auto
next
  case (outsider t a)
  then show ?thesis by (auto simp: by_author_def)
next
  case (recorded t a)
  from record_row_red [OF recorded(4)] recorded(1,2,3) show ?thesis
    by (auto simp: by_author_def)
qed

lemma scan_row_yellow:
  assumes "scan_row env st r = Inr (Next st')"
  shows "yellow_plagiarism st' = yellow_plagiarism st
           \<union> {a. by_author env r a \<and> a \<in> roster (sets env) \<and> warning r}"
  using assms
proof (cases rule: scan_row_cases)
  case skipped
  then show ?thesis by auto
next
  case (outsider t a)
  then show ?thesis by (auto simp: by_author_def)
next
  case (recorded t a)
  from record_row_yellow [OF recorded(4)] recorded(1,2,3) show ?thesis
    by (auto simp: by_author_def)
qed

lemma scan_row_dict:
  assumes "scan_row env st r = Inr (Next st')"
  shows "if by_author env r a \<and> a \<in> accepted (sets env)
         then \<exists>i. data_submission_id r = Some i
                \<and> map_of (submission_dict st') a = Some (strip i)
         else map_of (submission_dict st') a = map_of (submission_dict st) a"
  using assms
proof (cases rule: scan_row_cases)
  case skipped
  then show ?thesis by auto
next
  case (outsider t b)
  then show ?thesis by (auto simp: by_author_def roster_def)
next
  case (recorded t b)
  from record_row_dict [OF recorded(4)] recorded(1,2,3) show ?thesis
    by (auto simp: by_author_def dict_set_map_of split: if_splits)
qed

lemma scan_row_keys:
  assumes "scan_row env st r = Inr (Next st')"
    "fst ` set (submission_dict st) \<subseteq> accepted (sets env)"
  shows "fst ` set (submission_dict st') \<subseteq> accepted (sets env)"
  using assms(1)
proof (cases rule: scan_row_cases)
  case skipped
  then show ?thesis using assms(2) by auto
next
  case (outsider t b)
  then show ?thesis using assms(2) by auto
next
  case (recorded t b)
  show ?thesis
  proof (cases "b \<in> accepted (sets env)")
    case True
    with record_row_dict [OF recorded(4)] obtain i where
      "submission_dict st' = dict_set (submission_dict st) b (strip i)" by auto
    then have "fst ` set (submission_dict st') = insert b (fst ` set (submission_dict st))"
      by (simp add: dict_set_keys)
    with True assms(2) show ?thesis by simp
  next
    case False
    with record_row_dict [OF recorded(4)] assms(2) show ?thesis by simp
  qed
qed

lemma scan_rows_Cons_Next:
  assumes "scan_rows env st (r # rs) = Inr (Next st')"
  obtains s1 where "scan_row env st r = Inr (Next s1)" "scan_rows env s1 rs = Inr (Next st')"
  using assms by (auto split: sum.splits loop.splits)

lemma scan_rows_append:
  "scan_rows env st (xs @ ys) =
     (case scan_rows env st xs of
        Inl e \<Rightarrow> Inl e
      | Inr (Break s) \<Rightarrow> Inr (Break s)
      | Inr (Next s) \<Rightarrow> scan_rows env s ys)"
  by (induction xs arbitrary: st) (auto split: sum.splits loop.splits)

lemma scan_rows_append_Next:
  assumes "scan_rows env st (xs @ ys) = Inr (Next st')"
  obtains s1 where "scan_rows env st xs = Inr (Next s1)" "scan_rows env s1 ys = Inr (Next st')"
  using assms by (auto simp: scan_rows_append split: sum.splits loop.splits)

lemma scan_rows_no_older:
  "scan_rows env st rows = Inr (Next st') \<Longrightarrow> \<forall>x\<in>set rows. \<not> older env x"
proof (induction rows arbitrary: st)
  case Nil
  then show ?case by simp
next
  case (Cons r rs)
  from Cons.prems obtain s1 where
    a: "scan_row env st r = Inr (Next s1)" and b: "scan_rows env s1 rs = Inr (Next st')"
    by (rule scan_rows_Cons_Next)
  from scan_row_Next(1) [OF a] Cons.IH [OF b] show ?case by simp
qed

lemma scan_rows_Break:
  "scan_rows env st rows = Inr (Break st') \<Longrightarrow>
   \<exists>pre r post. rows = pre @ r # post \<and> older env r \<and> scan_rows env st pre = Inr (Next st')"
proof (induction rows arbitrary: st)
  case Nil
  then show ?case by simp
next
  case (Cons x xs)
  show ?case
  proof (cases "scan_row env st x")
    case (Inl e)
    with Cons.prems show ?thesis by simp
  next
    case (Inr res)
    show ?thesis
    proof (cases res)
      case (Break s)
      with Inr Cons.prems have "s = st'" by simp
      with Inr Break have "older env x" "st' = st" by (simp_all add: scan_row_Break)
      then have "x # xs = [] @ x # xs \<and> older env x \<and> scan_rows env st [] = Inr (Next st')"
        by simp
      then show ?thesis by blast
    next
      case (Next s)
      with Inr Cons.prems have "scan_rows env s xs = Inr (Break st')" by simp
      from Cons.IH [OF this] obtain pre r post where
        d: "xs = pre @ r # post" "older env r" "scan_rows env s pre = Inr (Next st')" by blast
      from d(3) Inr Next have "scan_rows env st (x # pre) = Inr (Next st')" by simp
      with d(1,2) have "x # xs = (x # pre) @ r # post \<and> older env r
          \<and> scan_rows env st (x # pre) = Inr (Next st')" by simp
      then show ?thesis by blast
    qed
  qed
qed

lemma scan_rows_late:
  "scan_rows env st rows = Inr (Next st') \<Longrightarrow>
   late_submission st' = late_submission st
     \<union> {a. \<exists>x\<in>set rows. by_author env x a \<and> after_end env x \<and> a \<in> no_submission (sets env)}"
proof (induction rows arbitrary: st)
  case Nil
  then show ?case by simp
next
  case (Cons r rs)
  from Cons.prems obtain s1 where
    a: "scan_row env st r = Inr (Next s1)" and b: "scan_rows env s1 rs = Inr (Next st')"
    by (rule scan_rows_Cons_Next)
  from scan_row_late [OF a] Cons.IH [OF b] show ?case by auto
qed

lemma scan_rows_red:
  "scan_rows env st rows = Inr (Next st') \<Longrightarrow>
   red_plagiarism st' = red_plagiarism st
     \<union> {a. \<exists>x\<in>set rows. by_author env x a \<and> a \<in> roster (sets env) \<and> warning_high x}"
proof (induction rows arbitrary: st)
  case Nil
  then show ?case by simp
next
  case (Cons r rs)
  from Cons.prems obtain s1 where
    a: "scan_row env st r = Inr (Next s1)" and b: "scan_rows env s1 rs = Inr (Next st')"
    by (rule scan_rows_Cons_Next)
  from scan_row_red [OF a] Cons.IH [OF b] show ?case by auto
qed

lemma scan_rows_yellow:
  "scan_rows env st rows = Inr (Next st') \<Longrightarrow>
   yellow_plagiarism st' = yellow_plagiarism st
     \<union> {a. \<exists>x\<in>set rows. by_author env x a \<and> a \<in> roster (sets env) \<and> warning x}"
proof (induction rows arbitrary: st)
  case Nil
  then show ?case by simp
next
  case (Cons r rs)
  from Cons.prems obtain s1 where
    a: "scan_row env st r = Inr (Next s1)" and b: "scan_rows env s1 rs = Inr (Next st')"
    by (rule scan_rows_Cons_Next)
  from scan_row_yellow [OF a] Cons.IH [OF b] show ?case by auto
qed

lemma scan_rows_keys:
  "scan_rows env st rows = Inr (Next st') \<Longrightarrow>
   fst ` set (submission_dict st) \<subseteq> accepted (sets env) \<Longrightarrow>
   fst ` set (submission_dict st') \<subseteq> accepted (sets env)"
proof (induction rows arbitrary: st)
  case Nil
  then show ?case by simp
next
  case (Cons r rs)
  from Cons.prems(1) obtain s1 where
    a: "scan_row env st r = Inr (Next s1)" and b: "scan_rows env s1 rs = Inr (Next st')"
    by (rule scan_rows_Cons_Next)
  from Cons.IH [OF b scan_row_keys [OF a Cons.prems(2)]] show ?case .
qed

text \<open>Last write wins.\<close>

lemma scan_rows_dict:
  assumes "scan_rows env st rows = Inr (Next st')" "a \<in> accepted (sets env)"
  shows "case filter (\<lambda>x. by_author env x a) rows of
           [] \<Rightarrow> map_of (submission_dict st') a = map_of (submission_dict st) a
         | y # ys \<Rightarrow> \<exists>i. data_submission_id (last (y # ys)) = Some i
                       \<and> map_of (submission_dict st') a = Some (strip i)"
  using assms(1)
proof (induction rows arbitrary: st)
  case Nil
  then show ?case by simp
next
  case (Cons r rs)
  from Cons.prems obtain s1 where
    a: "scan_row env st r = Inr (Next s1)" and b: "scan_rows env s1 rs = Inr (Next st')"
    by (rule scan_rows_Cons_Next)
  note step = scan_row_dict [OF a, of a]
  note ih = Cons.IH [OF b]
  show ?case
  proof (cases "filter (\<lambda>x. by_author env x a) rs")
    case Nil
    with ih have same: "map_of (submission_dict st') a = map_of (submission_dict s1) a" by simp
    show ?thesis
    proof (cases "by_author env r a")
      case True
      with step assms(2) same Nil show ?thesis by auto
    next
      case False
      with step same Nil show ?thesis by auto
    qed
  next
    case (Cons y ys)
    with ih show ?thesis by (auto split: if_splits)
  qed
qed

lemma rows_between_empty [simp]: "rows_between feed i i = []"
  by (simp add: rows_between_def)

lemma rows_between_first:
  "i < j \<Longrightarrow> rows_between feed i j = page_rows feed i @ rows_between feed (Suc i) j"
  by (simp add: rows_between_def upt_conv_Cons)

lemma rows_between_last:
  "i \<le> j \<Longrightarrow> rows_between feed i (Suc j) = rows_between feed i j @ page_rows feed j"
  by (simp add: rows_between_def)

lemma stops_at_here:
  assumes "feed p0 = Some subs" "scan_rows env st0 subs = Inr (Break st)"
  shows "stops_at env feed p0 st0 st"
proof -
  from scan_rows_Break [OF assms(2)] obtain pre r post where
    d: "subs = pre @ r # post" "older env r" "scan_rows env st0 pre = Inr (Next st)" by blast
  have "p0 \<le> p0 \<and> (\<forall>i. p0 \<le> i \<and> i < p0 \<longrightarrow> feed i \<noteq> None)
        \<and> feed p0 = Some (pre @ r # post) \<and> older env r
        \<and> scan_rows env st0 (rows_between feed p0 p0 @ pre) = Inr (Next st)"
    using assms(1) d by auto
  then show ?thesis unfolding stops_at_def by blast
qed

lemma stops_at_later:
  assumes "feed p0 = Some subs" "scan_rows env st0 subs = Inr (Next s1)"
    "stops_at env feed (Suc p0) s1 st"
  shows "stops_at env feed p0 st0 st"
proof -
  from assms(3) obtain p pre r post where
    d: "Suc p0 \<le> p" "\<forall>i. Suc p0 \<le> i \<and> i < p \<longrightarrow> feed i \<noteq> None"
       "feed p = Some (pre @ r # post)" "older env r"
       "scan_rows env s1 (rows_between feed (Suc p0) p @ pre) = Inr (Next st)"
    unfolding stops_at_def by blast
  have pr: "page_rows feed p0 = subs" using assms(1) by (simp add: page_rows_def)
  have "rows_between feed p0 p = subs @ rows_between feed (Suc p0) p"
    using d(1) pr by (simp add: rows_between_first)
  then have run: "scan_rows env st0 (rows_between feed p0 p @ pre) = Inr (Next st)"
    using assms(2) d(5) by (simp add: scan_rows_append)
  have ex: "\<forall>i. p0 \<le> i \<and> i < p \<longrightarrow> feed i \<noteq> None"
  proof (intro allI impI)
    fix i assume "p0 \<le> i \<and> i < p"
    then have "i = p0 \<or> (Suc p0 \<le> i \<and> i < p)" by auto
    then show "feed i \<noteq> None" using assms(1) d(2) by auto
  qed
  have "p0 \<le> p" using d(1) by simp
  with ex d(3,4) run show ?thesis unfolding stops_at_def by blast
qed

lemma scan_pages_stops_at:
  assumes "scan_pages env feed p0 st0 = Some res"
  shows "\<forall>st. res = Inr st \<longrightarrow> stops_at env feed p0 st0 st"
proof (rule scan_pages.raw_induct
    [where P = "\<lambda>env feed p0 st0 res. \<forall>st. res = Inr st \<longrightarrow> stops_at env feed p0 st0 st",
      OF _ assms], goal_cases)
  case (1 scan_pages' env feed page st0 y)
  note ih = 1(1) and body = 1(2)
  show ?case
  proof (intro allI impI)
    fix st assume y: "y = Inr st"
    from body obtain subs where f: "feed page = Some subs"
      using y by (auto split: option.splits)
    show "stops_at env feed page st0 st"
    proof (cases "scan_rows env st0 subs")
      case (Inl e)
      with body f y show ?thesis by simp
    next
      case (Inr oc)
      show ?thesis
      proof (cases oc)
        case (Break s)
        with body f Inr y have "s = st" by simp
        with Inr Break have "scan_rows env st0 subs = Inr (Break st)" by simp
        with f show ?thesis by (rule stops_at_here)
      next
        case (Next s)
        with body f Inr have "scan_pages' env feed (page + 1) s = Some y" by simp
        from ih [OF this] y have later: "stops_at env feed (Suc page) s st" by simp
        from Inr Next have "scan_rows env st0 subs = Inr (Next s)" by simp
        with f show ?thesis using later by (rule stops_at_later)
      qed
    qed
  qed
qed

lemma stops_at_scan_pages:
  assumes "p0 \<le> p" "\<forall>i. p0 \<le> i \<and> i < p \<longrightarrow> feed i \<noteq> None"
    "feed p = Some (pre @ r # post)" "older env r"
    "scan_rows env st0 (rows_between feed p0 p @ pre) = Inr (Next st)"
  shows "scan_pages env feed p0 st0 = Some (Inr st)"
  using assms(1,2,5)
proof (induction "p - p0" arbitrary: p0 st0)
  case 0
  then have e: "p0 = p" by simp
  from 0(4) e have pre: "scan_rows env st0 pre = Inr (Next st)" by simp
  have "scan_row env st r = Inr (Break st)" using assms(4) by (simp add: scan_row_Break)
  then have "scan_rows env st (r # post) = Inr (Break st)" by simp
  with pre have "scan_rows env st0 (pre @ r # post) = Inr (Break st)"
    by (simp add: scan_rows_append)
  with assms(3) e show ?case by (subst scan_pages.simps) simp
next
  case (Suc n)
  then have lt: "p0 < p" by simp
  with Suc.prems(2) obtain subs where f: "feed p0 = Some subs" by auto
  have pr: "page_rows feed p0 = subs" using f by (simp add: page_rows_def)
  have "rows_between feed p0 p = subs @ rows_between feed (Suc p0) p"
    using lt pr by (simp add: rows_between_first)
  with Suc.prems(3)
  have "scan_rows env st0 (subs @ (rows_between feed (Suc p0) p @ pre)) = Inr (Next st)" by simp
  then obtain s1 where
    a: "scan_rows env st0 subs = Inr (Next s1)" and
    b: "scan_rows env s1 (rows_between feed (Suc p0) p @ pre) = Inr (Next st)"
    by (rule scan_rows_append_Next)
  have n: "n = p - Suc p0" using Suc.hyps(2) by simp
  have le: "Suc p0 \<le> p" using lt by simp
  have ex: "\<forall>i. Suc p0 \<le> i \<and> i < p \<longrightarrow> feed i \<noteq> None" using Suc.prems(2) by auto
  from Suc.hyps(1) [OF n le ex b] have "scan_pages env feed (Suc p0) s1 = Some (Inr st)" .
  with f a show ?case by (subst scan_pages.simps) simp
qed

lemma scan_rows_Break_older:
  "scan_rows env st rows = Inr (Break st') \<Longrightarrow> \<exists>x\<in>set rows. older env x"
  using scan_rows_Break by fastforce

lemma scan_scanned:
  assumes "scan env feed = Some (Inr st)"
  shows "\<exists>rows. scanned env feed rows \<and> scan_rows env initial_state rows = Inr (Next st)"
proof -
  from assms have "scan_pages env feed 0 initial_state = Some (Inr st)" by (simp add: scan_def)
  from scan_pages_stops_at [OF this] have "stops_at env feed 0 initial_state st" by simp
  then obtain p pre r post where
    d: "\<forall>i. 0 \<le> i \<and> i < p \<longrightarrow> feed i \<noteq> None" "feed p = Some (pre @ r # post)" "older env r"
       "scan_rows env initial_state (rows_between feed 0 p @ pre) = Inr (Next st)"
    unfolding stops_at_def by blast
  let ?rows = "rows_between feed 0 p @ pre"
  from scan_rows_no_older [OF d(4)] have "\<forall>x\<in>set ?rows. \<not> older env x" .
  with d(1,2,3) have "scanned env feed ?rows" unfolding scanned_def by auto
  with d(4) show ?thesis by blast
qed

lemma prefix_before_first:
  assumes "xs @ x # ys = xs' @ x' # ys'" "\<forall>z\<in>set xs. \<not> P z" "\<forall>z\<in>set xs'. \<not> P z" "P x" "P x'"
  shows "xs = xs'"
proof -
  have "takeWhile (\<lambda>z. \<not> P z) (xs @ x # ys) = xs"
    using assms(2,4) by (simp add: takeWhile_tail takeWhile_eq_all_conv [THEN iffD2])
  moreover have "takeWhile (\<lambda>z. \<not> P z) (xs' @ x' # ys') = xs'"
    using assms(3,5) by (simp add: takeWhile_tail takeWhile_eq_all_conv [THEN iffD2])
  ultimately show ?thesis using assms(1) by simp
qed

lemma page_in_rows_between:
  "i \<le> p \<Longrightarrow> p < j \<Longrightarrow> set (page_rows feed p) \<subseteq> set (rows_between feed i j)"
  by (auto simp: rows_between_def)

lemma scanned_unique:
  assumes "scanned env feed rows" "scanned env feed rows'"
  shows "rows = rows'"
proof -
  from assms(1) obtain p pre r post where
    a: "feed p = Some (pre @ r # post)" "older env r" "\<forall>x\<in>set rows. \<not> older env x"
       "rows = rows_between feed 0 p @ pre"
    unfolding scanned_def by blast
  from assms(2) obtain p' pre' r' post' where
    b: "feed p' = Some (pre' @ r' # post')" "older env r'" "\<forall>x\<in>set rows'. \<not> older env x"
       "rows' = rows_between feed 0 p' @ pre'"
    unfolding scanned_def by blast
  have ra: "r \<in> set (page_rows feed p)" using a(1) by (simp add: page_rows_def)
  have rb: "r' \<in> set (page_rows feed p')" using b(1) by (simp add: page_rows_def)
  have "\<not> p < p'"
  proof
    assume "p < p'"
    with page_in_rows_between [of 0 p p' feed] ra have "r \<in> set rows'" using b(4) by auto
    with b(3) a(2) show False by blast
  qed
  moreover have "\<not> p' < p"
  proof
    assume "p' < p"
    with page_in_rows_between [of 0 p' p feed] rb have "r' \<in> set rows" using a(4) by auto
    with a(3) b(2) show False by blast
  qed
  ultimately have e: "p' = p" by simp
  with a(1) b(1) have "pre @ r # post = pre' @ r' # post'" by simp
  moreover have "\<forall>z\<in>set pre. \<not> older env z" using a(3,4) by simp
  moreover have "\<forall>z\<in>set pre'. \<not> older env z" using b(3,4) by simp
  ultimately have "pre = pre'" using a(2) b(2) by (rule prefix_before_first)
  with e a(4) b(4) show ?thesis by simp
qed

lemma scan_on_scanned:
  assumes "scan env feed = Some (Inr st)" "scanned env feed rows"
  shows "scan_rows env initial_state rows = Inr (Next st)"
proof -
  from scan_scanned [OF assms(1)] obtain rows' where
    "scanned env feed rows'" "scan_rows env initial_state rows' = Inr (Next st)" by blast
  with scanned_unique [OF assms(2)] show ?thesis by blast
qed

lemma rows_between_cong:
  "\<forall>i<p. feed' i = feed i \<Longrightarrow> rows_between feed' 0 p = rows_between feed 0 p"
proof -
  assume same: "\<forall>i<p. feed' i = feed i"
  have m: "map (page_rows feed') [0 ..< p] = map (page_rows feed) [0 ..< p]"
    by (rule map_cong) (use same in \<open>simp_all add: page_rows_def\<close>)
  show ?thesis unfolding rows_between_def m by (rule refl)
qed

lemma scanned_scan:
  assumes "\<forall>i<p. feed i \<noteq> None" "feed p = Some (pre @ r # post)" "older env r"
    "scan_rows env initial_state (rows_between feed 0 p @ pre) = Inr (Next st)"
  shows "scan env feed = Some (Inr st)"
proof -
  have "\<forall>i. 0 \<le> i \<and> i < p \<longrightarrow> feed i \<noteq> None" using assms(1) by simp
  with stops_at_scan_pages [of 0 p feed pre r post env initial_state st] assms(2,3,4)
  show ?thesis by (simp add: scan_def)
qed

text \<open>
  C2: the scan stops at the first row whose parsed time is strictly before \<open>start_time\<close>.
  Let \<open>r\<close> be that row, on page \<open>p\<close> after the rows \<open>pre\<close>, and let the rows before it
  raise nothing. Then the scan returns, and what it returns is the state reached on the rows
  before \<open>r\<close>. Whatever else \<open>r\<close> holds, whatever follows it on its page and whatever the
  later pages hold has no effect: every feed that agrees with this one before \<open>r\<close> and has an
  older row in its place gives the same state. This holds for every feed, in decreasing order
  of time or not.
\<close>

theorem C2_scan_stops_at_first_older_row:
  assumes pages: "\<forall>i<p. feed i \<noteq> None"
    and page: "feed p = Some (pre @ r # post)"
    and old: "older env r"
    and first: "\<forall>x\<in>set (rows_between feed 0 p @ pre). \<not> older env x"
    and ok: "scan_rows env initial_state (rows_between feed 0 p @ pre) = Inr res"
  shows "\<exists>st. res = Next st \<and> scan env feed = Some (Inr st)
           \<and> (\<forall>feed' r' post'.
                 (\<forall>i<p. feed' i = feed i) \<and> feed' p = Some (pre @ r' # post') \<and> older env r'
                 \<longrightarrow> scan env feed' = Some (Inr st))"
proof (cases res)
  case (Break s)
  with ok scan_rows_Break_older first show ?thesis by blast
next
  case (Next st)
  with ok have run: "scan_rows env initial_state (rows_between feed 0 p @ pre) = Inr (Next st)"
    by simp
  have here: "scan env feed = Some (Inr st)"
    by (rule scanned_scan [OF pages page old run])
  have "scan env feed' = Some (Inr st)"
    if h: "(\<forall>i<p. feed' i = feed i) \<and> feed' p = Some (pre @ r' # post') \<and> older env r'"
    for feed' r' post'
  proof -
    from h have same: "rows_between feed' 0 p = rows_between feed 0 p"
      by (simp add: rows_between_cong)
    from h pages have pages': "\<forall>i<p. feed' i \<noteq> None" by simp
    from run same have run': "scan_rows env initial_state (rows_between feed' 0 p @ pre) = Inr (Next st)"
      by simp
    from h have page': "feed' p = Some (pre @ r' # post')" and old': "older env r'" by simp_all
    show ?thesis by (rule scanned_scan [OF pages' page' old' run'])
  qed
  with Next here show ?thesis by blast
qed

lemma dict_set_distinct: "distinct (map fst d) \<Longrightarrow> distinct (map fst (dict_set d k v))"
proof (induction d k v rule: dict_set.induct)
  case (1 k v)
  then show ?case by simp
next
  case (2 k' v' d k v)
  have "fst ` set (dict_set d k v) = insert k (fst ` set d)" by (rule dict_set_keys)
  with 2 show ?case by auto
qed

lemma scan_row_distinct:
  assumes "scan_row env st r = Inr (Next st')" "distinct (map fst (submission_dict st))"
  shows "distinct (map fst (submission_dict st'))"
  using assms(1)
proof (cases rule: scan_row_cases)
  case skipped
  then show ?thesis using assms(2) by simp
next
  case (outsider t b)
  then show ?thesis using assms(2) by simp
next
  case (recorded t b)
  from record_row_dict [OF recorded(4)] assms(2) show ?thesis
    by (auto simp: dict_set_distinct split: if_splits)
qed

lemma scan_rows_distinct:
  "scan_rows env st rows = Inr (Next st') \<Longrightarrow> distinct (map fst (submission_dict st)) \<Longrightarrow>
   distinct (map fst (submission_dict st'))"
proof (induction rows arbitrary: st)
  case Nil
  then show ?case by simp
next
  case (Cons r rs)
  from Cons.prems(1) obtain s1 where
    a: "scan_row env st r = Inr (Next s1)" and b: "scan_rows env s1 rs = Inr (Next st')"
    by (rule scan_rows_Cons_Next)
  from Cons.IH [OF b scan_row_distinct [OF a Cons.prems(2)]] show ?case .
qed

lemma initial_fields [simp]:
  "submission_dict initial_state = []" "red_plagiarism initial_state = {}"
  "yellow_plagiarism initial_state = {}" "late_submission initial_state = {}"
  "author initial_state = None"
  by (simp_all add: initial_state_def)

lemma finite_by_author: "finite {a. \<exists>x\<in>set rows. by_author env x a \<and> Q x a}"
proof -
  have "{a. \<exists>x\<in>set rows. by_author env x a \<and> Q x a} \<subseteq> (\<lambda>x. the (row_author x)) ` set rows"
  proof
    fix a assume "a \<in> {a. \<exists>x\<in>set rows. by_author env x a \<and> Q x a}"
    then obtain x where "x \<in> set rows" "row_author x = Some a" by (auto simp: by_author_def)
    then have "x \<in> set rows" "a = the (row_author x)" by simp_all
    then show "a \<in> (\<lambda>x. the (row_author x)) ` set rows" by (rule rev_image_eqI)
  qed
  then show ?thesis by (rule finite_subset) simp
qed

lemma last_row_by_props:
  assumes "x \<in> set rows" "by_author env x a"
  shows "last_row_by env rows a \<in> set rows" "by_author env (last_row_by env rows a) a"
proof -
  let ?f = "filter (\<lambda>y. by_author env y a) rows"
  from assms have ne: "?f \<noteq> []" by (auto simp: filter_empty_conv)
  then have "last ?f \<in> set ?f" by (rule last_in_set)
  then show "last_row_by env rows a \<in> set rows" "by_author env (last_row_by env rows a) a"
    by (simp_all add: last_row_by_def)
qed

lemma last_row_by_split:
  assumes "x \<in> set rows" "by_author env x a"
  shows "\<exists>before l after. rows = before @ l # after \<and> last_row_by env rows a = l
           \<and> (\<forall>z\<in>set after. \<not> by_author env z a)"
proof -
  from assms have "\<exists>x\<in>set rows. by_author env x a" by blast
  from split_list_last_prop [OF this] obtain before l after where
    s: "rows = before @ l # after" "by_author env l a" "\<forall>z\<in>set after. \<not> by_author env z a"
    by blast
  from s(3) have "filter (\<lambda>y. by_author env y a) after = []" by (simp add: filter_empty_conv)
  with s(1,2) have "last_row_by env rows a = l" by (simp add: last_row_by_def)
  with s(1,3) show ?thesis by blast
qed

lemma not_earlier_self: "\<not> earlier env x x"
  by (simp add: earlier_def dt_less_def split: option.splits)

lemma oldest_is_last:
  assumes "newest_first env rows" "x \<in> set rows" "by_author env x a"
    "y \<in> set rows" "by_author env y a"
  shows "\<not> earlier env y (last_row_by env rows a)"
proof -
  from last_row_by_split [OF assms(2,3)] obtain before l after where
    s: "rows = before @ l # after" "last_row_by env rows a = l"
       "\<forall>z\<in>set after. \<not> by_author env z a"
    by blast
  from assms(4) s(1) have "y \<in> set before \<or> y = l \<or> y \<in> set after" by auto
  with assms(5) s(3) have "y \<in> set before \<or> y = l" by blast
  then have "\<not> earlier env y l"
  proof
    assume "y \<in> set before"
    moreover from assms(1) s(1) have "sorted_wrt (\<lambda>x y. \<not> earlier env x y) (before @ l # after)"
      by (simp add: newest_first_def)
    ultimately show ?thesis by (simp add: sorted_wrt_append)
  next
    assume "y = l"
    then show ?thesis by (simp add: not_earlier_self)
  qed
  with s(2) show ?thesis by simp
qed

lemma window_of_oldest:
  assumes "in_window env x" "\<not> earlier env x l" "\<not> older env l" "row_time env l \<noteq> None"
  shows "in_window env l"
proof -
  from assms(1) obtain tx where tx: "row_time env x = Some tx" "\<not> dt_less (end_time env) tx"
    by (auto simp: in_window_def split: option.splits)
  from assms(4) obtain tl where tl: "row_time env l = Some tl" by auto
  from assms(2) tx tl have "\<not> dt_less tx tl" by (simp add: earlier_def)
  with tx(2) have "\<not> dt_less (end_time env) tl" by (auto simp: dt_less_def)
  moreover from assms(3) tl have "\<not> dt_less tl (start_time env)" by (simp add: older_def)
  ultimately show ?thesis using tl by (simp add: in_window_def)
qed

text \<open>
  C3: after the scan, \<open>late_submission\<close> is a subset of \<open>no_submission\<close>; it holds exactly
  the authors in \<open>no_submission\<close> of a scanned row timed strictly after \<open>end_time\<close>.
\<close>

theorem C3_late_subset_no_submission:
  assumes "scan env feed = Some (Inr st)" "scanned env feed rows"
  shows "late_submission st \<subseteq> no_submission (sets env)
         \<and> late_submission st =
             {a. \<exists>x\<in>set rows. by_author env x a \<and> after_end env x \<and> a \<in> no_submission (sets env)}"
proof -
  from scan_rows_late [OF scan_on_scanned [OF assms]]
  have "late_submission st =
      {a. \<exists>x\<in>set rows. by_author env x a \<and> after_end env x \<and> a \<in> no_submission (sets env)}"
    by simp
  then show ?thesis by blast
qed

text \<open>
  C10: after the scan, \<open>red_plagiarism\<close> and \<open>yellow_plagiarism\<close> hold only names of the
  roster: each is exactly the set of roster authors of a scanned row with the marker, so a
  marker on a row whose author is not on the roster or cannot be read adds nobody.
\<close>

theorem C10_plagiarism_sets_within_roster:
  assumes "scan env feed = Some (Inr st)" "scanned env feed rows"
  shows "red_plagiarism st \<subseteq> roster (sets env) \<and> yellow_plagiarism st \<subseteq> roster (sets env)
         \<and> red_plagiarism st =
             {a. \<exists>x\<in>set rows. by_author env x a \<and> a \<in> roster (sets env) \<and> warning_high x}
         \<and> yellow_plagiarism st =
             {a. \<exists>x\<in>set rows. by_author env x a \<and> a \<in> roster (sets env) \<and> warning x}"
proof -
  note run = scan_on_scanned [OF assms]
  from scan_rows_red [OF run]
  have r: "red_plagiarism st =
      {a. \<exists>x\<in>set rows. by_author env x a \<and> a \<in> roster (sets env) \<and> warning_high x}" by simp
  from scan_rows_yellow [OF run]
  have y: "yellow_plagiarism st =
      {a. \<exists>x\<in>set rows. by_author env x a \<and> a \<in> roster (sets env) \<and> warning x}" by simp
  from r have "red_plagiarism st \<subseteq> roster (sets env)" by blast
  moreover from y have "yellow_plagiarism st \<subseteq> roster (sets env)" by blast
  ultimately show ?thesis using r y by blast
qed

lemma markers_after_scan:
  assumes "scan env feed = Some (Inr st)" "scanned env feed rows"
    and "x \<in> set rows" "by_author env x a" "a \<in> roster (sets env)"
    and "warning_high x" "warning x"
  shows "a \<in> red_plagiarism st \<and> a \<in> yellow_plagiarism st
         \<and> yellow_line (make_report (sets env) st)
             = sorted_list_of_set (yellow_plagiarism st - red_plagiarism st)
         \<and> set (yellow_line (make_report (sets env) st)) = yellow_plagiarism st - red_plagiarism st
         \<and> sorted (yellow_line (make_report (sets env) st))
         \<and> distinct (yellow_line (make_report (sets env) st))
         \<and> a \<notin> set (yellow_line (make_report (sets env) st))"
proof -
  note run = scan_on_scanned [OF assms(1,2)]
  from scan_rows_red [OF run]
  have r: "red_plagiarism st =
      {a. \<exists>x\<in>set rows. by_author env x a \<and> a \<in> roster (sets env) \<and> warning_high x}" by simp
  from scan_rows_yellow [OF run]
  have y: "yellow_plagiarism st =
      {a. \<exists>x\<in>set rows. by_author env x a \<and> a \<in> roster (sets env) \<and> warning x}" by simp
  from r assms(3-6) have inr: "a \<in> red_plagiarism st" by blast
  from y assms(3,4,5,7) have iny: "a \<in> yellow_plagiarism st" by blast
  have "finite (yellow_plagiarism st)" unfolding y by (rule finite_by_author)
  then have fin: "finite (yellow_plagiarism st - red_plagiarism st)" by simp
  have line: "yellow_line (make_report (sets env) st)
      = sorted_list_of_set (yellow_plagiarism st - red_plagiarism st)"
    by (simp add: make_report_def)
  have s: "set (yellow_line (make_report (sets env) st)) = yellow_plagiarism st - red_plagiarism st"
    unfolding line using fin by simp
  have "sorted (yellow_line (make_report (sets env) st))" unfolding line by simp
  moreover have "distinct (yellow_line (make_report (sets env) st))" unfolding line by simp
  moreover have "a \<notin> set (yellow_line (make_report (sets env) st))" unfolding s using inr by simp
  ultimately show ?thesis using inr iny line s by blast
qed

text \<open>
  C4 (amended): every key of the final \<open>submission_dict\<close> is in the accepted set, and its
  value is the stripped submission id of a scanned row by that author, the last one.
\<close>

theorem C4_accepted_map_entries:
  assumes "scan env feed = Some (Inr st)" "scanned env feed rows"
    and "(a, v) \<in> set (submission_dict st)"
  shows "a \<in> accepted (sets env)
         \<and> last_row_by env rows a \<in> set rows \<and> by_author env (last_row_by env rows a) a
         \<and> (\<exists>i. data_submission_id (last_row_by env rows a) = Some i \<and> v = strip i)"
proof -
  note run = scan_on_scanned [OF assms(1,2)]
  from scan_rows_keys [OF run] have "fst ` set (submission_dict st) \<subseteq> accepted (sets env)"
    by simp
  with assms(3) have acc: "a \<in> accepted (sets env)" by force
  from scan_rows_distinct [OF run] have "distinct (map fst (submission_dict st))" by simp
  with assms(3) have look: "map_of (submission_dict st) a = Some v" by simp
  note d = scan_rows_dict [OF run acc]
  show ?thesis
  proof (cases "filter (\<lambda>x. by_author env x a) rows")
    case Nil
    with d look show ?thesis by simp
  next
    case (Cons y ys)
    with d look have id: "\<exists>i. data_submission_id (last_row_by env rows a) = Some i \<and> v = strip i"
      by (auto simp: last_row_by_def)
    from Cons have "y \<in> set (filter (\<lambda>x. by_author env x a) rows)" by simp
    then have "y \<in> set rows" "by_author env y a" by simp_all
    from last_row_by_props [OF this] acc id show ?thesis by blast
  qed
qed

lemma entry_after_scan:
  assumes "scan env feed = Some (Inr st)" "scanned env feed rows"
    and "a \<in> accepted (sets env)" "x \<in> set rows" "by_author env x a"
  shows "(\<exists>i. data_submission_id (last_row_by env rows a) = Some i
              \<and> map_of (submission_dict st) a = Some (strip i))
         \<and> last_row_by env rows a \<in> set rows \<and> by_author env (last_row_by env rows a) a
         \<and> (newest_first env rows \<longrightarrow>
              (\<forall>y\<in>set rows. by_author env y a \<longrightarrow> \<not> earlier env y (last_row_by env rows a))
              \<and> (in_window env x \<longrightarrow> in_window env (last_row_by env rows a)))"
proof -
  note run = scan_on_scanned [OF assms(1,2)]
  let ?l = "last_row_by env rows a"
  note lp = last_row_by_props [OF assms(4,5)]
  from assms(4,5) have "filter (\<lambda>y. by_author env y a) rows \<noteq> []"
    by (auto simp: filter_empty_conv)
  with scan_rows_dict [OF run assms(3)]
  have w: "\<exists>i. data_submission_id ?l = Some i \<and> map_of (submission_dict st) a = Some (strip i)"
    by (auto simp: last_row_by_def split: list.splits)
  have o: "\<forall>y\<in>set rows. by_author env y a \<longrightarrow> \<not> earlier env y ?l" if "newest_first env rows"
    using oldest_is_last [OF that assms(4,5)] by blast
  have i: "in_window env ?l" if nf: "newest_first env rows" and win: "in_window env x"
  proof -
    from o [OF nf] assms(4,5) have "\<not> earlier env x ?l" by blast
    moreover from scan_rows_no_older [OF run] lp(1) have "\<not> older env ?l" by blast
    moreover from lp(2) have "row_time env ?l \<noteq> None" by (simp add: by_author_def)
    ultimately show ?thesis using win by (rule window_of_oldest [rotated])
  qed
  from w lp o i show ?thesis by blast
qed

lemma first_older_row_scan:
  assumes "\<forall>i<p. feed i \<noteq> None" "feed p = Some (pre @ r # post)" "older env r"
    and "\<forall>x\<in>set (rows_between feed 0 p @ pre). \<not> older env x"
    and "scan_rows env initial_state (rows_between feed 0 p @ pre) = Inr res"
  shows "\<exists>st. res = Next st \<and> scan env feed = Some (Inr st)
           \<and> scanned env feed (rows_between feed 0 p @ pre)"
proof (cases res)
  case (Break s)
  with assms(5) have "scan_rows env initial_state (rows_between feed 0 p @ pre) = Inr (Break s)"
    by simp
  from scan_rows_Break_older [OF this] assms(4) show ?thesis by blast
next
  case (Next st)
  with assms(5) have run: "scan_rows env initial_state (rows_between feed 0 p @ pre) = Inr (Next st)"
    by simp
  have "scan env feed = Some (Inr st)" by (rule scanned_scan [OF assms(1,2,3) run])
  moreover have "scanned env feed (rows_between feed 0 p @ pre)"
    unfolding scanned_def using assms(1,2,3,4) by blast
  ultimately show ?thesis using Next by blast
qed

text \<open>
  C6: let \<open>r\<close> be the first row of the feed older than \<open>start_time\<close>, on page \<open>p\<close> after the
  rows \<open>pre\<close>, and let the rows before it raise nothing. Then the scan returns a state, and a
  row before \<open>r\<close> of a roster author that carries both markers has put the author into both
  \<open>red_plagiarism\<close> and \<open>yellow_plagiarism\<close> of that state; the yellow line of the report is
  the sorted list of \<open>yellow_plagiarism\<close> minus \<open>red_plagiarism\<close>, without repetition, so
  that author is not on it.
\<close>

theorem C6_both_markers_and_yellow_line:
  assumes pages: "\<forall>i<p. feed i \<noteq> None"
    and page: "feed p = Some (pre @ r # post)"
    and old: "older env r"
    and first: "\<forall>x\<in>set (rows_between feed 0 p @ pre). \<not> older env x"
    and ok: "scan_rows env initial_state (rows_between feed 0 p @ pre) = Inr res"
    and row: "x \<in> set (rows_between feed 0 p @ pre)" "by_author env x a"
      "a \<in> roster (sets env)" "warning_high x" "warning x"
  shows "\<exists>st. scan env feed = Some (Inr st)
           \<and> a \<in> red_plagiarism st \<and> a \<in> yellow_plagiarism st
           \<and> yellow_line (make_report (sets env) st)
               = sorted_list_of_set (yellow_plagiarism st - red_plagiarism st)
           \<and> set (yellow_line (make_report (sets env) st))
               = yellow_plagiarism st - red_plagiarism st
           \<and> sorted (yellow_line (make_report (sets env) st))
           \<and> distinct (yellow_line (make_report (sets env) st))
           \<and> a \<notin> set (yellow_line (make_report (sets env) st))"
proof -
  from first_older_row_scan [OF pages page old first ok] obtain st where
    run: "scan env feed = Some (Inr st)" and
    sc: "scanned env feed (rows_between feed 0 p @ pre)" by blast
  from markers_after_scan [OF run sc row] run show ?thesis by blast
qed

text \<open>
  C5: let \<open>r\<close> be the first row of the feed older than \<open>start_time\<close>, let \<open>rows\<close> be the rows
  before it, and let them raise nothing. Then the scan returns a state, and for an author of
  the accepted set with a row among \<open>rows\<close> the entry of that state is the stripped id of the
  last of the author's rows (the last write wins). When the rows come newest first, none of
  the author's rows is earlier than that row; and when the author has a row in the contest
  window, that row is in the window too: it is the oldest submission of the author in the
  window.
\<close>

theorem C5_last_write_is_oldest:
  assumes pages: "\<forall>i<p. feed i \<noteq> None"
    and page: "feed p = Some (pre @ r # post)"
    and old: "older env r"
    and rows: "rows = rows_between feed 0 p @ pre"
    and first: "\<forall>x\<in>set rows. \<not> older env x"
    and ok: "scan_rows env initial_state rows = Inr res"
    and row: "a \<in> accepted (sets env)" "x \<in> set rows" "by_author env x a"
  shows "\<exists>st. scan env feed = Some (Inr st)
           \<and> (\<exists>i. data_submission_id (last_row_by env rows a) = Some i
                  \<and> map_of (submission_dict st) a = Some (strip i))
           \<and> last_row_by env rows a \<in> set rows \<and> by_author env (last_row_by env rows a) a
           \<and> (newest_first env rows \<longrightarrow>
                (\<forall>y\<in>set rows. by_author env y a \<longrightarrow> \<not> earlier env y (last_row_by env rows a))
                \<and> (in_window env x \<longrightarrow> in_window env (last_row_by env rows a)))"
proof -
  from first ok have first': "\<forall>x\<in>set (rows_between feed 0 p @ pre). \<not> older env x"
    and ok': "scan_rows env initial_state (rows_between feed 0 p @ pre) = Inr res"
    unfolding rows by simp_all
  from first_older_row_scan [OF pages page old first' ok'] obtain st where
    run: "scan env feed = Some (Inr st)" and sc: "scanned env feed rows"
    unfolding rows by blast
  from entry_after_scan [OF run sc row] run show ?thesis by blast
qed

section \<open>The worked example, checked\<close>

lemmas strptime_eval =
  strptime_def DTS_FORMAT_def HMS_FORMAT_def DT_FORMAT_def HM_FORMAT_def
  directive_matches_def directive_alts_def digit_def blank_def int_of_text_def set_field_def
  strptime_default_def valid_datetime_def days_in_month_def leap_year_def is_space_def
  List.map_filter_def parse_submit_time_def replace_date_def

lemma ex_time1: "row_time ex_env ex_row1
    = Some \<lparr>year = 2024, month = 1, day = 5, hour = 13, minute = 0, second = 0\<rparr>"
  by (simp add: row_time_def is_testcases_row_def ex_row1_def ex_env_def strptime_eval)

lemma ex_time2: "row_time ex_env ex_row2 = None"
  by (simp add: row_time_def is_testcases_row_def ex_row2_def)

lemma ex_time3: "row_time ex_env ex_row3
    = Some \<lparr>year = 2024, month = 1, day = 5, hour = 11, minute = 0, second = 0\<rparr>"
  by (simp add: row_time_def is_testcases_row_def ex_row3_def ex_env_def strptime_eval)

lemma ex_time4: "row_time ex_env ex_row4
    = Some \<lparr>year = 2024, month = 1, day = 5, hour = 10, minute = 0, second = 0\<rparr>"
  by (simp add: row_time_def is_testcases_row_def ex_row4_def ex_env_def strptime_eval)

lemma ex_time5: "row_time ex_env ex_row5
    = Some \<lparr>year = 2024, month = 1, day = 5, hour = 9, minute = 30, second = 0\<rparr>"
  by (simp add: row_time_def is_testcases_row_def ex_row5_def ex_env_def strptime_eval)

lemma ex_time6: "row_time ex_env ex_row6
    = Some \<lparr>year = 2024, month = 1, day = 5, hour = 8, minute = 0, second = 0\<rparr>"
  by (simp add: row_time_def is_testcases_row_def ex_row6_def ex_env_def strptime_eval)

lemmas ex_times = ex_time1 ex_time2 ex_time3 ex_time4 ex_time5 ex_time6

lemma ex_older:
  "\<not> older ex_env ex_row1" "\<not> older ex_env ex_row2" "\<not> older ex_env ex_row3"
  "\<not> older ex_env ex_row4" "\<not> older ex_env ex_row5" "older ex_env ex_row6"
  by (simp_all add: older_def ex_times) (simp_all add: ex_env_def dt_less_def dt_key_def)

lemmas ex_rows_defs = ex_row1_def ex_row2_def ex_row3_def ex_row4_def ex_row5_def ex_row6_def
  ex_row7_def

lemma ex_scan_rows: "scan_rows ex_env initial_state ex_rows = Inr (Next ex_state)"
  by (simp add: ex_rows_def ex_rows_defs ex_env_def ex_sets_def ex_state_def initial_state_def
      scan_row_def record_row_def is_testcases_row_def roster_def strip_def Let_def
      dt_less_def dt_key_def strptime_eval)

lemma ex_rows_between: "rows_between ex_feed 0 (Suc 0) = [ex_row1, ex_row2, ex_row3]"
  by (simp add: rows_between_def page_rows_def ex_feed_def)

lemma ex_scanned: "scanned ex_env ex_feed ex_rows"
proof -
  have "(\<forall>i<Suc 0. ex_feed i \<noteq> None) \<and> ex_feed (Suc 0) = Some ([ex_row4, ex_row5] @ ex_row6 # [ex_row7])
      \<and> older ex_env ex_row6 \<and> (\<forall>x\<in>set ex_rows. \<not> older ex_env x)
      \<and> ex_rows = rows_between ex_feed 0 (Suc 0) @ [ex_row4, ex_row5]"
    by (simp add: ex_feed_def ex_older ex_rows_def ex_rows_between)
  then show ?thesis unfolding scanned_def by blast
qed

lemma ex_scan: "scan ex_env ex_feed = Some (Inr ex_state)"
proof (rule scanned_scan [where p = "Suc 0" and pre = "[ex_row4, ex_row5]" and r = ex_row6
      and post = "[ex_row7]"])
  show "\<forall>i<Suc 0. ex_feed i \<noteq> None" by (simp add: ex_feed_def)
  show "ex_feed (Suc 0) = Some ([ex_row4, ex_row5] @ ex_row6 # [ex_row7])" by (simp add: ex_feed_def)
  show "older ex_env ex_row6" by (rule ex_older)
  show "scan_rows ex_env initial_state (rows_between ex_feed 0 (Suc 0) @ [ex_row4, ex_row5])
      = Inr (Next ex_state)"
    using ex_scan_rows by (simp add: ex_rows_between ex_rows_def)
qed

lemma ex_author3: "by_author ex_env ex_row3 ''amy''"
  by (simp add: by_author_def ex_time3) (simp add: row_author_def ex_row3_def strip_def is_space_def)

lemma ex_last_amy: "last_row_by ex_env ex_rows ''amy'' = ex_row4"
  by (simp add: last_row_by_def ex_rows_def by_author_def ex_times)
     (simp add: row_author_def ex_rows_defs strip_def is_space_def)

lemma ex_newest_first: "newest_first ex_env ex_rows"
  by (simp add: newest_first_def ex_rows_def earlier_def ex_times dt_less_def dt_key_def)

lemma ex_first_older_row:
  "\<forall>i<Suc 0. ex_feed i \<noteq> None"
  "ex_feed (Suc 0) = Some ([ex_row4, ex_row5] @ ex_row6 # [ex_row7])"
  "rows_between ex_feed 0 (Suc 0) @ [ex_row4, ex_row5] = ex_rows"
  "\<forall>x\<in>set ex_rows. \<not> older ex_env x"
  by (simp_all add: ex_feed_def ex_rows_between ex_rows_def ex_older)

text \<open>The example: the scan stops at Bob's row of 08:00 on the second page.\<close>

theorem C2_witness:
  "ex_feed 0 \<noteq> None
   \<and> ex_feed (Suc 0) = Some ([ex_row4, ex_row5] @ ex_row6 # [ex_row7])
   \<and> older ex_env ex_row6
   \<and> scan_rows ex_env initial_state (rows_between ex_feed 0 (Suc 0) @ [ex_row4, ex_row5])
       = Inr (Next ex_state)
   \<and> scan ex_env ex_feed = Some (Inr ex_state)"
proof -
  have pages: "\<forall>i<Suc 0. ex_feed i \<noteq> None" by (simp add: ex_feed_def)
  have page: "ex_feed (Suc 0) = Some ([ex_row4, ex_row5] @ ex_row6 # [ex_row7])"
    by (simp add: ex_feed_def)
  have old: "older ex_env ex_row6" by (rule ex_older)
  have rows: "rows_between ex_feed 0 (Suc 0) @ [ex_row4, ex_row5] = ex_rows"
    by (simp add: ex_rows_between ex_rows_def)
  have first: "\<forall>x\<in>set (rows_between ex_feed 0 (Suc 0) @ [ex_row4, ex_row5]). \<not> older ex_env x"
    unfolding rows by (simp add: ex_rows_def ex_older)
  have ok: "scan_rows ex_env initial_state (rows_between ex_feed 0 (Suc 0) @ [ex_row4, ex_row5])
      = Inr (Next ex_state)"
    unfolding rows by (rule ex_scan_rows)
  from C2_scan_stops_at_first_older_row [OF pages page old first ok]
  have "scan ex_env ex_feed = Some (Inr ex_state)" by auto
  moreover have "ex_feed 0 \<noteq> None" by (simp add: ex_feed_def)
  ultimately show ?thesis using page old ok by blast
qed

text \<open>The example: Cat, who has not submitted in time, is the one late author.\<close>

theorem C3_witness:
  "scan ex_env ex_feed = Some (Inr ex_state) \<and> scanned ex_env ex_feed ex_rows
   \<and> late_submission ex_state = {''cat''}
   \<and> late_submission ex_state \<subseteq> no_submission (sets ex_env)"
proof -
  from C3_late_subset_no_submission [OF ex_scan ex_scanned]
  have "late_submission ex_state \<subseteq> no_submission (sets ex_env)" by blast
  moreover have "late_submission ex_state = {''cat''}" by (simp add: ex_state_def)
  ultimately show ?thesis using ex_scan ex_scanned by blast
qed

text \<open>
  The example: Dan's row carries the high marker, and Dan is not on the roster.
\<close>

theorem C10_witness:
  "scan ex_env ex_feed = Some (Inr ex_state) \<and> scanned ex_env ex_feed ex_rows
   \<and> warning_high ex_row5 \<and> ex_row5 \<in> set ex_rows
   \<and> red_plagiarism ex_state = {''amy''}
   \<and> red_plagiarism ex_state \<subseteq> roster (sets ex_env)
   \<and> yellow_plagiarism ex_state \<subseteq> roster (sets ex_env)"
proof -
  from C10_plagiarism_sets_within_roster [OF ex_scan ex_scanned]
  have "red_plagiarism ex_state \<subseteq> roster (sets ex_env)
      \<and> yellow_plagiarism ex_state \<subseteq> roster (sets ex_env)" by blast
  moreover have "red_plagiarism ex_state = {''amy''}" by (simp add: ex_state_def)
  moreover have "warning_high ex_row5 \<and> ex_row5 \<in> set ex_rows"
    by (simp add: ex_row5_def ex_rows_def)
  ultimately show ?thesis using ex_scan ex_scanned by blast
qed

text \<open>The example: Amy's row of 11:00 carries both markers.\<close>

theorem C6_witness:
  "ex_feed 0 \<noteq> None
   \<and> ex_feed (Suc 0) = Some ([ex_row4, ex_row5] @ ex_row6 # [ex_row7])
   \<and> older ex_env ex_row6
   \<and> scan_rows ex_env initial_state (rows_between ex_feed 0 (Suc 0) @ [ex_row4, ex_row5])
       = Inr (Next ex_state)
   \<and> ex_row3 \<in> set (rows_between ex_feed 0 (Suc 0) @ [ex_row4, ex_row5])
   \<and> by_author ex_env ex_row3 ''amy'' \<and> ''amy'' \<in> roster (sets ex_env)
   \<and> warning_high ex_row3 \<and> warning ex_row3
   \<and> scan ex_env ex_feed = Some (Inr ex_state)
   \<and> ''amy'' \<in> red_plagiarism ex_state \<and> ''amy'' \<in> yellow_plagiarism ex_state
   \<and> ''amy'' \<notin> set (yellow_line (make_report (sets ex_env) ex_state))"
proof -
  note rows = ex_first_older_row(3)
  have p0: "ex_feed 0 \<noteq> None" by (simp add: ex_feed_def)
  have first: "\<forall>x\<in>set (rows_between ex_feed 0 (Suc 0) @ [ex_row4, ex_row5]). \<not> older ex_env x"
    unfolding rows by (rule ex_first_older_row(4))
  have ok: "scan_rows ex_env initial_state (rows_between ex_feed 0 (Suc 0) @ [ex_row4, ex_row5])
      = Inr (Next ex_state)"
    unfolding rows by (rule ex_scan_rows)
  have a: "ex_row3 \<in> set (rows_between ex_feed 0 (Suc 0) @ [ex_row4, ex_row5])"
    unfolding rows by (simp add: ex_rows_def)
  have b: "''amy'' \<in> roster (sets ex_env)" by (simp add: ex_env_def ex_sets_def roster_def)
  have c: "warning_high ex_row3" and d: "warning ex_row3" by (simp_all add: ex_row3_def)
  from C6_both_markers_and_yellow_line
    [OF ex_first_older_row(1,2) ex_older(6) first ok a ex_author3 b c d]
  obtain st where st: "scan ex_env ex_feed = Some (Inr st)"
    "''amy'' \<in> red_plagiarism st" "''amy'' \<in> yellow_plagiarism st"
    "''amy'' \<notin> set (yellow_line (make_report (sets ex_env) st))" by blast
  from st(1) ex_scan have "st = ex_state" by simp
  with st have "scan ex_env ex_feed = Some (Inr ex_state)
      \<and> ''amy'' \<in> red_plagiarism ex_state \<and> ''amy'' \<in> yellow_plagiarism ex_state
      \<and> ''amy'' \<notin> set (yellow_line (make_report (sets ex_env) ex_state))" by simp
  with p0 ex_first_older_row(2) ex_older(6) ok a ex_author3 b c d show ?thesis by blast
qed

text \<open>The example: the entry of Amy comes from her row of 10:00.\<close>

theorem C4_witness:
  "scan ex_env ex_feed = Some (Inr ex_state) \<and> scanned ex_env ex_feed ex_rows
   \<and> (''amy'', ''103'') \<in> set (submission_dict ex_state)
   \<and> ''amy'' \<in> accepted (sets ex_env)
   \<and> by_author ex_env ex_row4 ''amy''
   \<and> (\<exists>i. data_submission_id ex_row4 = Some i \<and> ''103'' = strip i)"
proof -
  have e: "(''amy'', ''103'') \<in> set (submission_dict ex_state)" by (simp add: ex_state_def)
  from C4_accepted_map_entries [OF ex_scan ex_scanned e]
  have "''amy'' \<in> accepted (sets ex_env) \<and> by_author ex_env ex_row4 ''amy''
      \<and> (\<exists>i. data_submission_id ex_row4 = Some i \<and> ''103'' = strip i)"
    unfolding ex_last_amy by blast
  with ex_scan ex_scanned e show ?thesis by blast
qed

text \<open>
  The example: Amy's rows of 11:00 and 10:00 are both in the window; the older one wins.
\<close>

theorem C5_witness:
  "ex_feed 0 \<noteq> None
   \<and> ex_feed (Suc 0) = Some ([ex_row4, ex_row5] @ ex_row6 # [ex_row7])
   \<and> older ex_env ex_row6
   \<and> ex_rows = rows_between ex_feed 0 (Suc 0) @ [ex_row4, ex_row5]
   \<and> scan_rows ex_env initial_state ex_rows = Inr (Next ex_state)
   \<and> ''amy'' \<in> accepted (sets ex_env) \<and> ex_row3 \<in> set ex_rows \<and> by_author ex_env ex_row3 ''amy''
   \<and> newest_first ex_env ex_rows \<and> in_window ex_env ex_row3
   \<and> last_row_by ex_env ex_rows ''amy'' = ex_row4
   \<and> scan ex_env ex_feed = Some (Inr ex_state)
   \<and> (\<exists>i. data_submission_id ex_row4 = Some i
          \<and> map_of (submission_dict ex_state) ''amy'' = Some (strip i))
   \<and> \<not> earlier ex_env ex_row3 ex_row4
   \<and> in_window ex_env ex_row4"
proof -
  have p0: "ex_feed 0 \<noteq> None" by (simp add: ex_feed_def)
  note rows = ex_first_older_row(3) [symmetric]
  have a: "''amy'' \<in> accepted (sets ex_env)" by (simp add: ex_env_def ex_sets_def)
  have b: "ex_row3 \<in> set ex_rows" by (simp add: ex_rows_def)
  have w: "in_window ex_env ex_row3"
    by (simp add: in_window_def ex_times) (simp add: ex_env_def dt_less_def dt_key_def)
  from C5_last_write_is_oldest
    [OF ex_first_older_row(1,2) ex_older(6) rows ex_first_older_row(4) ex_scan_rows a b ex_author3,
      unfolded ex_last_amy]
  obtain st where st: "scan ex_env ex_feed = Some (Inr st)"
    "\<exists>i. data_submission_id ex_row4 = Some i \<and> map_of (submission_dict st) ''amy'' = Some (strip i)"
    "newest_first ex_env ex_rows \<longrightarrow>
       (\<forall>y\<in>set ex_rows. by_author ex_env y ''amy'' \<longrightarrow> \<not> earlier ex_env y ex_row4)
       \<and> (in_window ex_env ex_row3 \<longrightarrow> in_window ex_env ex_row4)" by blast
  from st(1) ex_scan have e: "st = ex_state" by simp
  from st(2) e have 1: "\<exists>i. data_submission_id ex_row4 = Some i
      \<and> map_of (submission_dict ex_state) ''amy'' = Some (strip i)" by simp
  from st(3) ex_newest_first b ex_author3 have 2: "\<not> earlier ex_env ex_row3 ex_row4" by blast
  from st(3) ex_newest_first w have 3: "in_window ex_env ex_row4" by blast
  from p0 ex_first_older_row(2) ex_older(6) rows ex_scan_rows a b ex_author3 ex_newest_first w
    ex_last_amy ex_scan 1 2 3
  show ?thesis by blast
qed

lemma cx_scan_rows:
  "scan_rows ex_env initial_state [cx_row]
   = Inr (Next \<lparr>submission_dict = [(''amy'', ''77'')], red_plagiarism = {},
                 yellow_plagiarism = {}, late_submission = {}, author = Some ''amy''\<rparr>)"
  by (simp add: cx_row_def ex_env_def ex_sets_def initial_state_def
      scan_row_def record_row_def is_testcases_row_def roster_def strip_def Let_def
      dt_less_def dt_key_def strptime_eval)

text \<open>
  C4 (as stated, refuted): "a non-accepted row by an accepted-set author never contributes
  an entry". The loop never reads the status of a row: the rejected submission 77 of Amy
  becomes her entry.
\<close>

theorem C4_status_not_checked_counterexample:
  "scan ex_env cx_feed
     = Some (Inr \<lparr>submission_dict = [(''amy'', ''77'')], red_plagiarism = {},
                   yellow_plagiarism = {}, late_submission = {}, author = Some ''amy''\<rparr>)
   \<and> cx_feed 0 = Some [cx_row, ex_row6]
   \<and> author_text cx_row = Some ''amy'' \<and> data_submission_id cx_row = Some ''77''
   \<and> status_text cx_row = ''Wrong Answer''"
proof -
  have "scan ex_env cx_feed
     = Some (Inr \<lparr>submission_dict = [(''amy'', ''77'')], red_plagiarism = {},
                   yellow_plagiarism = {}, late_submission = {}, author = Some ''amy''\<rparr>)"
  proof (rule scanned_scan [where p = 0 and pre = "[cx_row]" and r = ex_row6 and post = "[]"])
    show "\<forall>i<0. cx_feed i \<noteq> None" by simp
    show "cx_feed 0 = Some ([cx_row] @ ex_row6 # [])" by (simp add: cx_feed_def)
    show "older ex_env ex_row6" by (rule ex_older)
    show "scan_rows ex_env initial_state (rows_between cx_feed 0 0 @ [cx_row])
      = Inr (Next \<lparr>submission_dict = [(''amy'', ''77'')], red_plagiarism = {},
                 yellow_plagiarism = {}, late_submission = {}, author = Some ''amy''\<rparr>)"
      using cx_scan_rows by (simp add: rows_between_def)
  qed
  then show ?thesis by (simp add: cx_feed_def cx_row_def)
qed

section \<open>Properties of the reconciler\<close>

lemma c7_scan_rows: "scan_rows c7_env initial_state [c7_row1, c7_row2, ex_row5] = Inr (Next c7_state)"
  by (simp add: c7_row1_def c7_row2_def ex_row5_def c7_env_def c7_state_def
      initial_state_def scan_row_def record_row_def is_testcases_row_def roster_def strip_def
      Let_def dt_less_def dt_key_def strptime_eval)

lemma c7_older: "older c7_env ex_row6"
  by (simp add: older_def row_time_def is_testcases_row_def ex_row6_def c7_env_def
      dt_less_def dt_key_def strptime_eval)

text \<open>
  C7: what the code does on the example of the claim. With the directories 1, 2 and 3 and the
  ids 4 and 2, the directories 1 and 3 are removed and 2 is kept, as the claim says; but the
  list of missing submissions holds \<open>dan\<close>, the last author the scan read, and not the id 4:
  line 278 appends the variable \<open>author\<close> that the scan left behind.
\<close>

theorem C7_missing_list_holds_stale_author:
  "scan c7_env c7_feed = Some (Inr c7_state)
   \<and> reconcile c7_state (Some c7_directory)
       = Inr \<lparr>directory = Some [(''2'', True)], missing_submission = [''dan''], warned = None\<rparr>"
proof -
  have "scan c7_env c7_feed = Some (Inr c7_state)"
  proof (rule scanned_scan [where p = 0 and pre = "[c7_row1, c7_row2, ex_row5]" and r = ex_row6
        and post = "[]"])
    show "\<forall>i<0. c7_feed i \<noteq> None" by simp
    show "c7_feed 0 = Some ([c7_row1, c7_row2, ex_row5] @ ex_row6 # [])" by (simp add: c7_feed_def)
    show "older c7_env ex_row6" by (rule c7_older)
    show "scan_rows c7_env initial_state (rows_between c7_feed 0 0 @ [c7_row1, c7_row2, ex_row5])
        = Inr (Next c7_state)"
      using c7_scan_rows by (simp add: rows_between_def)
  qed
  moreover have "reconcile c7_state (Some c7_directory)
       = Inr \<lparr>directory = Some [(''2'', True)], missing_submission = [''dan''], warned = None\<rparr>"
    by (simp add: reconcile_def c7_state_def c7_directory_def remove_redundant_def Let_def)
  ultimately show ?thesis by blast
qed

section \<open>Properties of the timestamp parsers\<close>

lemma set_field_second: "d \<noteq> CHR ''S'' \<Longrightarrow> second (set_field d v t) = second t"
  by (simp add: set_field_def)

lemma match_items_second:
  "(t, rest) \<in> set (match_items fmt s t0) \<Longrightarrow> Dir CHR ''S'' \<notin> set fmt \<Longrightarrow> second t = second t0"
proof (induction fmt s t0 rule: match_items.induct)
  case (1 s t0)
  then show ?case by simp
next
  case (2 c fmt s t0)
  then show ?case by (auto split: list.splits if_splits)
next
  case (3 fmt s t0)
  then show ?case by auto
next
  case (4 d fmt s t0)
  from "4.prems"(1) obtain v r where
    m: "(v, r) \<in> set (directive_matches d s)" and
    n: "(t, rest) \<in> set (match_items fmt r (set_field d v t0))"
    by auto
  from "4.prems"(2) have d: "d \<noteq> CHR ''S''" and f: "Dir CHR ''S'' \<notin> set fmt" by auto
  from "4.IH" [OF m refl n f] have "second t = second (set_field d v t0)" .
  with d show ?case by (simp add: set_field_second)
qed

lemma strptime_second:
  assumes "strptime s fmt = Some t" "Dir CHR ''S'' \<notin> set fmt"
  shows "second t = 0"
proof -
  from assms(1) obtain rest more where "match_items fmt s strptime_default = (t, rest) # more"
    by (auto simp: strptime_def split: list.splits if_splits)
  then have "(t, rest) \<in> set (match_items fmt s strptime_default)" by simp
  from match_items_second [OF this assms(2)] show ?thesis by (simp add: strptime_default_def)
qed

lemma contest_formats_no_seconds:
  "Dir CHR ''S'' \<notin> set DT_FORMAT" "Dir CHR ''S'' \<notin> set HM_FORMAT"
  by (simp_all add: DT_FORMAT_def HM_FORMAT_def)

text \<open>
  C8 (amended): the contest start and end are parsed with a two-format fallback of the same
  shape as the submission rows, but at minute resolution: \<open>%Y-%m-%d %H:%M\<close> first, else
  \<open>%H:%M\<close> combined with today's date, on the words of the element without the first and the
  last; the submission rows use \<open>%Y-%m-%d %H:%M:%S\<close> and \<open>%H:%M:%S\<close>. A contest time
  therefore has zero seconds.
\<close>

theorem C8_contest_times_minute_resolution:
  "parse_contest_time td element_text
     = two_format_fallback DT_FORMAT HM_FORMAT td (contest_time_text element_text)
   \<and> parse_submit_time td s = two_format_fallback DTS_FORMAT HMS_FORMAT td s
   \<and> (parse_contest_time td element_text = Inr t \<longrightarrow> second t = 0)"
proof -
  have a: "parse_contest_time td element_text
     = two_format_fallback DT_FORMAT HM_FORMAT td (contest_time_text element_text)"
    by (simp add: parse_contest_time_def two_format_fallback_def Let_def)
  have b: "parse_submit_time td s = two_format_fallback DTS_FORMAT HMS_FORMAT td s"
    by (simp add: parse_submit_time_def two_format_fallback_def)
  have c: "second t = 0" if "parse_contest_time td element_text = Inr t"
  proof (cases "strptime (contest_time_text element_text) DT_FORMAT")
    case (Some u)
    with that have "u = t" by (simp add: parse_contest_time_def Let_def)
    with Some strptime_second contest_formats_no_seconds(1) show ?thesis by blast
  next
    case None
    with that obtain u where u: "strptime (contest_time_text element_text) HM_FORMAT = Some u"
      and t: "t = replace_date td u"
      by (auto simp: parse_contest_time_def Let_def split: option.splits)
    from strptime_second [OF u contest_formats_no_seconds(2)] t show ?thesis
      by (simp add: replace_date_def)
  qed
  from a b c show ?thesis by blast
qed

lemma ex_contest_text: "contest_time_text ''Start 2024-01-05 09:00 CET'' = ''2024-01-05 09:00''"
  by (simp add: contest_time_text_def split_ws_def is_space_def)

text \<open>A contest start given to the minute.\<close>

theorem C8_witness:
  "parse_contest_time ex_today ''Start 2024-01-05 09:00 CET''
     = Inr \<lparr>year = 2024, month = 1, day = 5, hour = 9, minute = 0, second = 0\<rparr>
   \<and> second \<lparr>year = 2024, month = 1, day = 5, hour = 9, minute = 0, second = 0\<rparr> = 0"
proof -
  have p: "parse_contest_time ex_today ''Start 2024-01-05 09:00 CET''
     = Inr \<lparr>year = 2024, month = 1, day = 5, hour = 9, minute = 0, second = 0\<rparr>"
    unfolding parse_contest_time_def ex_contest_text by (simp add: strptime_eval)
  from C8_contest_times_minute_resolution
    [of ex_today "''Start 2024-01-05 09:00 CET''" "[]"
        "\<lparr>year = 2024, month = 1, day = 5, hour = 9, minute = 0, second = 0\<rparr>"] p
  have "second \<lparr>year = 2024, month = 1, day = 5, hour = 9, minute = 0, second = 0\<rparr> = 0"
    by blast
  with p show ?thesis by blast
qed

text \<open>
  C8 (as stated, refuted): "the two parsers agree on every input string". A time with seconds
  parses as a submission time and raises \<open>ValueError\<close> as a contest time; a time without
  seconds does the opposite.
\<close>

theorem C8_parsers_disagree_counterexample:
  "parse_submit_time ex_today ''2024-01-05 14:30:00''
     = Inr \<lparr>year = 2024, month = 1, day = 5, hour = 14, minute = 30, second = 0\<rparr>
   \<and> contest_time_text ''Start 2024-01-05 14:30:00 CET'' = ''2024-01-05 14:30:00''
   \<and> parse_contest_time ex_today ''Start 2024-01-05 14:30:00 CET'' = Inl ValueError
   \<and> parse_contest_time ex_today ''Start 2024-01-05 14:30 CET''
     = Inr \<lparr>year = 2024, month = 1, day = 5, hour = 14, minute = 30, second = 0\<rparr>
   \<and> parse_submit_time ex_today ''2024-01-05 14:30'' = Inl ValueError"
proof -
  have t1: "contest_time_text ''Start 2024-01-05 14:30:00 CET'' = ''2024-01-05 14:30:00''"
    by (simp add: contest_time_text_def split_ws_def is_space_def)
  have t2: "contest_time_text ''Start 2024-01-05 14:30 CET'' = ''2024-01-05 14:30''"
    by (simp add: contest_time_text_def split_ws_def is_space_def)
  have a: "parse_submit_time ex_today ''2024-01-05 14:30:00''
     = Inr \<lparr>year = 2024, month = 1, day = 5, hour = 14, minute = 30, second = 0\<rparr>"
    by (simp add: parse_submit_time_def strptime_eval)
  have c: "parse_contest_time ex_today ''Start 2024-01-05 14:30:00 CET'' = Inl ValueError"
    unfolding parse_contest_time_def t1 by (simp add: strptime_eval)
  have d: "parse_contest_time ex_today ''Start 2024-01-05 14:30 CET''
     = Inr \<lparr>year = 2024, month = 1, day = 5, hour = 14, minute = 30, second = 0\<rparr>"
    unfolding parse_contest_time_def t2 by (simp add: strptime_eval)
  have e: "parse_submit_time ex_today ''2024-01-05 14:30'' = Inl ValueError"
    by (simp add: parse_submit_time_def strptime_eval)
  from a t1 c d e show ?thesis by blast
qed

section \<open>Properties of the raw-file fetcher\<close>

lemma split_on_nonempty: "split_on c s \<noteq> []"
  by (induction s) (auto split: list.splits)

lemma split_on_append:
  "c \<notin> set s \<Longrightarrow> split_on c (s @ t) = (s @ hd (split_on c t)) # tl (split_on c t)"
proof (induction s)
  case Nil
  then show ?case using split_on_nonempty [of c t] by (cases "split_on c t") simp_all
next
  case (Cons x s)
  then show ?case by auto
qed

lemma split_on_url_path:
  "\<forall>s\<in>set segs. CHR ''/'' \<notin> set s \<Longrightarrow> split_on CHR ''/'' (url_path segs) = [] # segs"
proof (induction segs)
  case Nil
  then show ?case by (simp add: url_path_def)
next
  case (Cons s segs)
  then have ih: "split_on CHR ''/'' (url_path segs) = [] # segs" by simp
  from Cons.prems have s: "CHR ''/'' \<notin> set s" by simp
  have "url_path (s # segs) = CHR ''/'' # (s @ url_path segs)" by (simp add: url_path_def)
  then have "split_on CHR ''/'' (url_path (s # segs)) = [] # split_on CHR ''/'' (s @ url_path segs)"
    by simp
  also have "split_on CHR ''/'' (s @ url_path segs) = s # segs"
    using split_on_append [OF s, of "url_path segs"] ih by simp
  finally show ?case .
qed

lemma py_get_second: "segs \<noteq> [] \<Longrightarrow> py_get (x # segs) 1 = Inr (hd segs)"
  by (cases segs) (simp_all add: py_get_def)

lemma py_get_last: "segs \<noteq> [] \<Longrightarrow> py_get (x # segs) (- 1) = Inr (last segs)"
proof -
  assume ne: "segs \<noteq> []"
  have "nat (int (length (x # segs)) + - 1) = length segs" by simp
  moreover have "(x # segs) ! length segs = last segs"
    using ne by (simp add: last_conv_nth nth_Cons')
  ultimately show ?thesis by (simp add: py_get_def)
qed

lemma split_on_sep: "split_on c (a @ c # b) = split_on c a @ split_on c b"
proof (induction a)
  case Nil
  then show ?case by simp
next
  case (Cons x a)
  then show ?case using split_on_nonempty [of c a] by (cases "split_on c a") auto
qed

lemma components_sep: "path_components (a @ CHR ''/'' # b) = path_components a @ path_components b"
  by (simp add: path_components_def split_on_sep)

lemma components_empty [simp]: "path_components [] = []"
  by (simp add: path_components_def)

lemma components_trailing: "path_components (a @ ''/'') = path_components a"
  using components_sep [of a "[]"] by simp

lemma components_join2:
  assumes "b \<noteq> []" "hd b \<noteq> CHR ''/''"
  shows "path_components (join2 a b) = path_components a @ path_components b"
proof (cases "a = [] \<or> last a = CHR ''/''")
  case True
  show ?thesis
  proof (cases "a = []")
    case True
    with assms show ?thesis by (simp add: join2_def)
  next
    case False
    with True have "butlast a @ ''/'' = a" using append_butlast_last_id [of a] by simp
    then obtain a' where a: "a = a' @ ''/''" by (rule that [OF sym])
    have "join2 a b = a' @ CHR ''/'' # b" using assms a by (simp add: join2_def)
    then have "path_components (join2 a b) = path_components a' @ path_components b"
      by (simp only: components_sep)
    moreover have "path_components a = path_components a'" unfolding a by (rule components_trailing)
    ultimately show ?thesis by simp
  qed
next
  case False
  with assms have "join2 a b = a @ CHR ''/'' # b" by (simp add: join2_def)
  then show ?thesis by (simp only: components_sep)
qed

lemma components_segment:
  assumes "s \<noteq> []" "CHR ''/'' \<notin> set s" "s \<noteq> ''.''"
  shows "path_components s = [s]"
proof -
  have "split_on CHR ''/'' (s @ []) = (s @ hd (split_on CHR ''/'' [])) # tl (split_on CHR ''/'' [])"
    using assms(2) by (rule split_on_append)
  then have "split_on CHR ''/'' s = [s]" by simp
  with assms(1,3) show ?thesis by (simp add: path_components_def)
qed

lemma segment_hd: "s \<noteq> [] \<Longrightarrow> CHR ''/'' \<notin> set s \<Longrightarrow> hd s \<noteq> CHR ''/''"
  by (cases s) auto

lemma components_submissions: "path_components ''submissions'' = [''submissions'']"
  by (simp add: path_components_def)

lemma components_target_dir:
  assumes "d \<noteq> []" "CHR ''/'' \<notin> set d" "d \<noteq> ''.''"
  shows "path_components (path_join cwd [''submissions'', d])
           = path_components cwd @ [''submissions'', d]"
proof -
  have "path_join cwd [''submissions'', d] = join2 (join2 cwd ''submissions'') d"
    by (simp add: path_join_def)
  moreover have "path_components (join2 (join2 cwd ''submissions'') d)
      = path_components (join2 cwd ''submissions'') @ path_components d"
    using assms(1) segment_hd [OF assms(1,2)] by (rule components_join2)
  moreover have "path_components (join2 cwd ''submissions'')
      = path_components cwd @ path_components ''submissions''"
    by (rule components_join2) simp_all
  ultimately show ?thesis
    using components_segment [OF assms] by (simp add: components_submissions)
qed

lemma components_target_file:
  assumes "d \<noteq> []" "CHR ''/'' \<notin> set d" "d \<noteq> ''.''"
    and "f \<noteq> []" "CHR ''/'' \<notin> set f" "f \<noteq> ''.''"
  shows "path_components (path_join cwd [''submissions'', d, f])
           = path_components cwd @ [''submissions'', d, f]"
proof -
  have "path_join cwd [''submissions'', d, f] = join2 (path_join cwd [''submissions'', d]) f"
    by (simp add: path_join_def)
  moreover have "path_components (join2 (path_join cwd [''submissions'', d]) f)
      = path_components (path_join cwd [''submissions'', d]) @ path_components f"
    using assms(4) segment_hd [OF assms(4,5)] by (rule components_join2)
  ultimately show ?thesis
    using components_target_dir [OF assms(1,2,3)] components_segment [OF assms(4,5,6)] by simp
qed

lemma get_file_on_segments:
  assumes "segs \<noteq> []" "\<forall>s\<in>set segs. s \<noteq> [] \<and> CHR ''/'' \<notin> set s \<and> s \<noteq> ''.'' \<and> s \<noteq> ''..''"
    and "D = path_components cwd @ [''submissions'', hd segs]" "F = D @ [last segs]"
  shows "get_file cwd (Inr content) (Some (url_path segs)) fs =
     (case (if node_at fs D \<noteq> Some Directory then create_directory fs D else Inr fs) of
        Inl e \<Rightarrow> (fs, Some e)
      | Inr fs1 \<Rightarrow>
          (case store_file fs1 F content of Inl e \<Rightarrow> (fs1, Some e) | Inr fs2 \<Rightarrow> (fs2, None)))"
proof -
  from assms(2) have nosep: "\<forall>s\<in>set segs. CHR ''/'' \<notin> set s" by blast
  note sp = split_on_url_path [OF nosep]
  from assms(1,2) hd_in_set [OF assms(1)]
  have h: "hd segs \<noteq> []" "CHR ''/'' \<notin> set (hd segs)" "hd segs \<noteq> ''.''" by blast+
  from assms(1,2) last_in_set [OF assms(1)]
  have l: "last segs \<noteq> []" "CHR ''/'' \<notin> set (last segs)" "last segs \<noteq> ''.''" by blast+
  have cd: "path_components (path_join cwd [''submissions'', hd segs]) = D"
    unfolding assms(3) by (rule components_target_dir [OF h])
  have cf: "path_components (path_join cwd [''submissions'', hd segs, last segs]) = F"
    unfolding assms(3,4) using components_target_file [OF h l] by simp
  show ?thesis
    unfolding get_file_def Let_def sp sum.case option.case
      py_get_second [OF assms(1)] py_get_last [OF assms(1)]
      isdir_def mkdir_def write_file_def cd cf
    by (rule refl)
qed

text \<open>
  C9 (amended): take a URL whose path is made of one or more segments, each after a slash,
  non-empty and other than \<open>.\<close> and \<open>..\<close>, and let the download succeed. With \<open>S\<close> the
  directory \<open>submissions\<close> of the working directory, \<open>D\<close> the first segment under \<open>S\<close>
  and \<open>F\<close> the last segment under \<open>D\<close>:
  \<^item> when \<open>S\<close> is a directory, \<open>D\<close> is a directory or is absent and not refused, and \<open>F\<close>
    is no directory and not refused, the script ends without raising, having made \<open>D\<close> a
    directory and written the downloaded text to \<open>F\<close>;
  \<^item> when \<open>S\<close> and \<open>D\<close> are absent, the script raises \<open>FileNotFoundError\<close> and leaves the
    tree as it was.
  \<open>parsed[1]\<close> is the first segment, since \<open>parsed[0]\<close> is the empty text before the
  leading slash.
\<close>

theorem C9_writes_first_and_last_segment:
  assumes segs: "segs \<noteq> []"
      "\<forall>s\<in>set segs. s \<noteq> [] \<and> CHR ''/'' \<notin> set s \<and> s \<noteq> ''.'' \<and> s \<noteq> ''..''"
    and S: "S = path_components cwd @ [''submissions'']"
    and D: "D = S @ [hd segs]"
    and F: "F = D @ [last segs]"
  shows "(node_at fs S = Some Directory
            \<and> (node_at fs D = Some Directory \<or> node_at fs D = None \<and> refusal fs D = None)
            \<and> node_at fs F \<noteq> Some Directory \<and> refusal fs F = None
          \<longrightarrow> get_file cwd (Inr content) (Some (url_path segs)) fs
                = (fs\<lparr>nodes := (nodes fs)(D \<mapsto> Directory, F \<mapsto> Regular content)\<rparr>, None))
         \<and> (node_at fs S = None \<and> node_at fs D = None \<and> refusal fs D = None
          \<longrightarrow> get_file cwd (Inr content) (Some (url_path segs)) fs = (fs, Some FileNotFoundError))
         \<and> path_segments (url_path segs) = segs"
proof -
  have D': "D = path_components cwd @ [''submissions'', hd segs]" unfolding D S by simp
  note steps = get_file_on_segments [OF segs D' F, where content = content and fs = fs]
  have bD: "butlast D = S" unfolding D by simp
  have bF: "butlast F = D" unfolding F by simp
  have ne: "D \<noteq> []" "F \<noteq> []" "F \<noteq> D" unfolding D F by simp_all
  have absent: "get_file cwd (Inr content) (Some (url_path segs)) fs = (fs, Some FileNotFoundError)"
    if "node_at fs S = None \<and> node_at fs D = None \<and> refusal fs D = None"
    unfolding steps using that by (simp add: create_directory_def bD)
  have written: "get_file cwd (Inr content) (Some (url_path segs)) fs
        = (fs\<lparr>nodes := (nodes fs)(D \<mapsto> Directory, F \<mapsto> Regular content)\<rparr>, None)"
    if h: "node_at fs S = Some Directory
        \<and> (node_at fs D = Some Directory \<or> node_at fs D = None \<and> refusal fs D = None)
        \<and> node_at fs F \<noteq> Some Directory \<and> refusal fs F = None"
  proof (cases "node_at fs D = Some Directory")
    case True
    then have same: "(nodes fs)(D \<mapsto> Directory) = nodes fs"
      using ne(1) by (auto simp: node_at_def)
    from True h have "store_file fs F content = Inr (fs\<lparr>nodes := (nodes fs)(F \<mapsto> Regular content)\<rparr>)"
      by (auto simp: store_file_def bF split: option.splits node.splits)
    with True show ?thesis unfolding steps by (simp add: same)
  next
    case False
    with h have a: "node_at fs D = None" "refusal fs D = None" "node_at fs S = Some Directory"
      by blast+
    let ?fs1 = "fs\<lparr>nodes := (nodes fs)(D \<mapsto> Directory)\<rparr>"
    from a have mk: "create_directory fs D = Inr ?fs1" by (simp add: create_directory_def bD)
    have at: "node_at ?fs1 D = Some Directory" "node_at ?fs1 F = node_at fs F"
      "refusal ?fs1 F = refusal fs F"
      using ne by (simp_all add: node_at_def)
    from h at have "store_file ?fs1 F content
        = Inr (?fs1\<lparr>nodes := (nodes ?fs1)(F \<mapsto> Regular content)\<rparr>)"
      by (auto simp: store_file_def bF split: option.splits node.splits)
    with False mk show ?thesis unfolding steps by simp
  qed
  from segs(2) have nosep: "\<forall>s\<in>set segs. CHR ''/'' \<notin> set s" by blast
  have "path_segments (url_path segs) = segs"
    unfolding path_segments_def split_on_url_path [OF nosep] using segs(2)
    by (simp add: filter_id_conv)
  with absent written show ?thesis by blast
qed

lemma ex_components: "path_components ''/home/ta'' = [''home'', ''ta'']"
  by (simp add: path_components_def)

lemma ex_get_file:
  "get_file ''/home/ta'' (Inr ''class Sol {}'') (Some ''/user/repo/main/Sol.java'') ex_fs
   = (ex_fs\<lparr>nodes := (nodes ex_fs)
        ([''home'', ''ta'', ''submissions'', ''user''] \<mapsto> Directory,
         [''home'', ''ta'', ''submissions'', ''user'', ''Sol.java''] \<mapsto> Regular ''class Sol {}'')\<rparr>,
      None)"
  by (simp add: get_file_def py_get_def path_join_def join2_def isdir_def mkdir_def write_file_def
      path_components_def create_directory_def store_file_def node_at_def ex_fs_def Let_def)

text \<open>
  C9 (as stated, refuted): "the directory is the second path segment". For the path
  \<open>/user/repo/main/Sol.java\<close> the second segment is \<open>repo\<close>; the script writes the file
  under \<open>user\<close>, and makes nothing under \<open>repo\<close>.
\<close>

theorem C9_second_segment_counterexample:
  "snd (get_file ''/home/ta'' (Inr ''class Sol {}'') (Some ''/user/repo/main/Sol.java'') ex_fs)
     = None
   \<and> nodes (fst (get_file ''/home/ta'' (Inr ''class Sol {}'')
                   (Some ''/user/repo/main/Sol.java'') ex_fs))
       [''home'', ''ta'', ''submissions'', ''user'', ''Sol.java''] = Some (Regular ''class Sol {}'')
   \<and> nodes (fst (get_file ''/home/ta'' (Inr ''class Sol {}'')
                   (Some ''/user/repo/main/Sol.java'') ex_fs))
       [''home'', ''ta'', ''submissions'', ''repo'', ''Sol.java''] = None
   \<and> nodes (fst (get_file ''/home/ta'' (Inr ''class Sol {}'')
                   (Some ''/user/repo/main/Sol.java'') ex_fs))
       [''home'', ''ta'', ''submissions'', ''repo''] = None
   \<and> path_segments ''/user/repo/main/Sol.java'' = [''user'', ''repo'', ''main'', ''Sol.java'']"
  unfolding ex_get_file by (simp add: ex_fs_def path_segments_def)

text \<open>
  The path of a raw file, owner, repository, branch and file name, in both file trees.
\<close>

theorem C9_witness:
  "[''user'', ''repo'', ''main'', ''Sol.java''] \<noteq> []
   \<and> url_path [''user'', ''repo'', ''main'', ''Sol.java''] = ''/user/repo/main/Sol.java''
   \<and> path_components ''/home/ta'' @ [''submissions''] = [''home'', ''ta'', ''submissions'']
   \<and> node_at ex_fs [''home'', ''ta'', ''submissions''] = Some Directory
   \<and> node_at ex_fs [''home'', ''ta'', ''submissions'', ''user''] = None
   \<and> refusal ex_fs [''home'', ''ta'', ''submissions'', ''user''] = None
   \<and> node_at ex_fs [''home'', ''ta'', ''submissions'', ''user'', ''Sol.java''] \<noteq> Some Directory
   \<and> refusal ex_fs [''home'', ''ta'', ''submissions'', ''user'', ''Sol.java''] = None
   \<and> get_file ''/home/ta'' (Inr ''class Sol {}'') (Some ''/user/repo/main/Sol.java'') ex_fs
       = (ex_fs\<lparr>nodes := (nodes ex_fs)
            ([''home'', ''ta'', ''submissions'', ''user''] \<mapsto> Directory,
             [''home'', ''ta'', ''submissions'', ''user'', ''Sol.java'']
               \<mapsto> Regular ''class Sol {}'')\<rparr>,
          None)
   \<and> node_at empty_fs [''home'', ''ta'', ''submissions''] = None
   \<and> node_at empty_fs [''home'', ''ta'', ''submissions'', ''user''] = None
   \<and> refusal empty_fs [''home'', ''ta'', ''submissions'', ''user''] = None
   \<and> get_file ''/home/ta'' (Inr ''class Sol {}'') (Some ''/user/repo/main/Sol.java'') empty_fs
       = (empty_fs, Some FileNotFoundError)"
proof -
  let ?segs = "[''user'', ''repo'', ''main'', ''Sol.java'']"
  let ?S = "[''home'', ''ta'', ''submissions'']"
  let ?D = "[''home'', ''ta'', ''submissions'', ''user'']"
  let ?F = "[''home'', ''ta'', ''submissions'', ''user'', ''Sol.java'']"
  have a: "?segs \<noteq> []" by simp
  have b: "\<forall>s\<in>set ?segs. s \<noteq> [] \<and> CHR ''/'' \<notin> set s \<and> s \<noteq> ''.'' \<and> s \<noteq> ''..''" by simp
  have u: "url_path ?segs = ''/user/repo/main/Sol.java''" by (simp add: url_path_def)
  have S: "?S = path_components ''/home/ta'' @ [''submissions'']" by (simp add: ex_components)
  have D: "?D = ?S @ [hd ?segs]" by simp
  have F: "?F = ?D @ [last ?segs]" by simp
  have h1: "node_at ex_fs ?S = Some Directory" and h2: "node_at ex_fs ?D = None"
    and h3: "refusal ex_fs ?D = None" and h4: "node_at ex_fs ?F \<noteq> Some Directory"
    and h5: "refusal ex_fs ?F = None"
    by (simp_all add: node_at_def ex_fs_def)
  have e1: "node_at empty_fs ?S = None" and e2: "node_at empty_fs ?D = None"
    and e3: "refusal empty_fs ?D = None"
    by (simp_all add: node_at_def empty_fs_def)
  note c9 = C9_writes_first_and_last_segment [OF a b S D F, unfolded u]
  from c9 [where fs = ex_fs and content = "''class Sol {}''"] h1 h2 h3 h4 h5
  have w: "get_file ''/home/ta'' (Inr ''class Sol {}'') (Some ''/user/repo/main/Sol.java'') ex_fs
       = (ex_fs\<lparr>nodes := (nodes ex_fs)(?D \<mapsto> Directory, ?F \<mapsto> Regular ''class Sol {}'')\<rparr>, None)"
    by blast
  from c9 [where fs = empty_fs and content = "''class Sol {}''"] e1 e2 e3
  have f: "get_file ''/home/ta'' (Inr ''class Sol {}'') (Some ''/user/repo/main/Sol.java'') empty_fs
       = (empty_fs, Some FileNotFoundError)"
    by blast
  from a u S [symmetric] h1 h2 h3 h4 h5 w e1 e2 e3 f show ?thesis by blast
qed

end
